theory Spec2Isabelle
  imports Main
begin

section \<open>The event type registry\<close>

text \<open>
  \<^verbatim>\<open>GetUniqueEventId\<close> keeps one function-local static counter, \<^verbatim>\<open>id\<close>, and every
  instantiation \<^verbatim>\<open>GetEventId<Event>\<close> keeps one function-local static \<^verbatim>\<open>eventID\<close>,
  initialised by the first call. Both are process-wide: they belong to no bus. An event
  type is a value of the type variable \<open>'t\<close>; \<open>eventID r T = None\<close> says that the static
  of \<^verbatim>\<open>GetEventId<T>\<close> is not initialised yet. The counter is a C++ \<^verbatim>\<open>int\<close> that only
  counts the event types of one program upwards from 0, so it is a \<open>nat\<close> here; the
  overflow after \<open>2^31\<close> distinct event types is not modelled.
\<close>

record 't registry =
  id_static :: nat
  eventID :: "'t \<Rightarrow> nat option"

definition registry_init :: "'t registry" where
  "registry_init = \<lparr>id_static = 0, eventID = (\<lambda>_. None)\<rparr>"

definition GetUniqueEventId :: "'t registry \<Rightarrow> nat \<times> 't registry" where
  "GetUniqueEventId r = (id_static r, r\<lparr>id_static := id_static r + 1\<rparr>)"

definition GetEventId :: "'t \<Rightarrow> 't registry \<Rightarrow> nat \<times> 't registry" where
  "GetEventId T r =
     (case eventID r T of
        Some i \<Rightarrow> (i, r)
      | None \<Rightarrow>
          (let (i, r') = GetUniqueEventId r
           in (i, r'\<lparr>eventID := (eventID r')(T \<mapsto> i)\<rparr>)))"

text \<open>A sequence of id requests, as the program makes them one after the other.\<close>

definition requests :: "'t list \<Rightarrow> 't registry \<Rightarrow> 't registry" where
  "requests Ts r = fold (\<lambda>T r'. snd (GetEventId T r')) Ts r"

section \<open>The dispatch point\<close>

text \<open>
  Modelled from the spec: \<^verbatim>\<open>signal.hpp\<close> (the classes \<^verbatim>\<open>Signal\<close> and \<^verbatim>\<open>Connection\<close>) is
  included from outside the repository. The spec gives its contract:
  \<^verbatim>\<open>Bind(callable) -> Connection\<close>, \<^verbatim>\<open>Invoke(event)\<close> invoking all bound callables in
  subscription order, and \<^verbatim>\<open>Connection.Disconnect()\<close> revoking a binding, idempotently.

  A binding is a slot number and a callable; the slot number is what a connection
  remembers. A callable is modelled by what it does to the bus when it is called with
  an event: the events it enqueues, each with its event type, in order. That it was
  called is recorded by the dispatch point (see \<open>call_callable\<close> below). Callables that
  re-enter the bus in another way (trigger, dispatch, clear, subscribe) are outside the
  model.
\<close>

type_synonym ('t, 'e) callable = "'e \<Rightarrow> ('t \<times> 'e) list"

record ('t, 'e) Signal =
  bindings :: "(nat \<times> ('t, 'e) callable) list"
  next_slot :: nat

definition Signal_init :: "('t, 'e) Signal" where
  "Signal_init = \<lparr>bindings = [], next_slot = 0\<rparr>"

definition Bind :: "('t, 'e) callable \<Rightarrow> ('t, 'e) Signal \<Rightarrow> nat \<times> ('t, 'e) Signal" where
  "Bind f sg =
     (next_slot sg,
      sg\<lparr>bindings := bindings sg @ [(next_slot sg, f)], next_slot := next_slot sg + 1\<rparr>)"

definition Disconnect :: "nat \<Rightarrow> ('t, 'e) Signal \<Rightarrow> ('t, 'e) Signal" where
  "Disconnect k sg = sg\<lparr>bindings := filter (\<lambda>b. fst b \<noteq> k) (bindings sg)\<rparr>"

section \<open>Event pools and the bus\<close>

text \<open>
  \<^verbatim>\<open>EventPool<Event>\<close> has the two members \<^verbatim>\<open>mSignal\<close> and \<^verbatim>\<open>mEventQueue\<close>. Events of
  all event types are values of one type \<open>'e\<close>: the value that \<^verbatim>\<open>Event{args...}\<close>
  constructs is the argument of the model's functions.
\<close>

record ('t, 'e) EventPool =
  mSignal :: "('t, 'e) Signal"
  mEventQueue :: "'e list"

definition EventPool_new :: "('t, 'e) EventPool" where
  "EventPool_new = \<lparr>mSignal = Signal_init, mEventQueue = []\<rparr>"

text \<open>
  What the program can observe of a run is which callable was called with which event:
  \<open>Invoked i k e\<close> says that the dispatch point of the pool in slot \<open>i\<close> of
  \<^verbatim>\<open>mEventPools\<close> called the callable bound in its slot \<open>k\<close> with the event \<open>e\<close>.
\<close>

datatype 'e invocation = Invoked (pool_of: nat) (slot_of: nat) (event_of: 'e)

text \<open>
  The calls of the bus's public member functions, in the order the bus received them,
  from the program or from a callable. This is a history variable: no function of the
  model reads it.
\<close>

datatype 't call =
    Call_Trigger 't
  | Call_Enqueue 't
  | Call_Subscribe 't
  | Call_Unsubscribe
  | Call_Dispatch
  | Call_Clear
  | Call_Clear_sel "'t list"

text \<open>
  The state: the statics of the registry, the bus's only member \<^verbatim>\<open>mEventPools\<close> (a
  vector of pointers, \<open>None\<close> the null pointer), and the two logs.

  The last three fields stand for storage that a vector has released. A range-for loop
  over a \<^verbatim>\<open>std::vector\<close> keeps two iterators into the vector's storage; when the vector
  grows while the loop runs, the iterators are invalid and the loop goes on reading
  through them (C++ leaves this undefined). What such a read returns is not specified:
  the \<open>r\<close>-th read returns the event \<open>freed_event r\<close> where an event is read, and where a
  slot of \<^verbatim>\<open>mEventPools\<close> is read it finds the slot's pool pointer (\<open>freed_slot r\<close>) or a
  null pointer; \<open>reads\<close> counts these reads. The two functions are arbitrary, so a
  theorem about all states is about all contents of the released storage (the contents
  the vector had are among them). A read that returns a wild pointer ends the process;
  the model has no state for that.
\<close>

record ('t, 'e) state =
  statics :: "'t registry"
  mEventPools :: "('t, 'e) EventPool option list"
  invoked :: "'e invocation list"
  calls :: "'t call list"
  freed_event :: "nat \<Rightarrow> 'e"
  freed_slot :: "nat \<Rightarrow> bool"
  reads :: nat

definition bus_new :: "'t registry \<Rightarrow> (nat \<Rightarrow> 'e) \<Rightarrow> (nat \<Rightarrow> bool) \<Rightarrow> ('t, 'e) state" where
  "bus_new r fe fs =
     \<lparr>statics = r, mEventPools = [], invoked = [], calls = [],
      freed_event = fe, freed_slot = fs, reads = 0\<rparr>"

definition stale_event :: "('t, 'e) state \<Rightarrow> 'e \<times> ('t, 'e) state" where
  "stale_event s = (freed_event s (reads s), s\<lparr>reads := reads s + 1\<rparr>)"

definition stale_slot :: "('t, 'e) state \<Rightarrow> bool \<times> ('t, 'e) state" where
  "stale_slot s = (freed_slot s (reads s), s\<lparr>reads := reads s + 1\<rparr>)"

definition received :: "'t call \<Rightarrow> ('t, 'e) state \<Rightarrow> ('t, 'e) state" where
  "received c s = s\<lparr>calls := calls s @ [c]\<rparr>"

text \<open>\<^verbatim>\<open>std::vector::resize\<close>: new elements are value-initialised, null pointers here.\<close>

definition resize :: "nat \<Rightarrow> 'a option list \<Rightarrow> 'a option list" where
  "resize n xs = take n xs @ replicate (n - length xs) None"

text \<open>
  \<^verbatim>\<open>GetEventHandler<Event>\<close> returns a reference to the pool; the model returns the
  pool's index in \<^verbatim>\<open>mEventPools\<close>, with the new state.
\<close>

definition GetEventHandler :: "'t \<Rightarrow> ('t, 'e) state \<Rightarrow> nat \<times> ('t, 'e) state" where
  "GetEventHandler T s =
     (let (eventHandlerIndex, r) = GetEventId T (statics s);
          s1 = s\<lparr>statics := r\<rparr>;
          s2 = (if eventHandlerIndex \<ge> length (mEventPools s1)
                then s1\<lparr>mEventPools := resize (eventHandlerIndex + 1) (mEventPools s1)\<rparr>
                else s1);
          s3 = (if mEventPools s2 ! eventHandlerIndex = None
                then s2\<lparr>mEventPools := (mEventPools s2)[eventHandlerIndex := Some EventPool_new]\<rparr>
                else s2)
      in (eventHandlerIndex, s3))"

text \<open>Reading and updating the pool behind an index; no pool, nothing read or done.\<close>

definition pool_at :: "nat \<Rightarrow> ('t, 'e) state \<Rightarrow> ('t, 'e) EventPool option" where
  "pool_at i s = (if i < length (mEventPools s) then mEventPools s ! i else None)"

definition bindings_at :: "nat \<Rightarrow> ('t, 'e) state \<Rightarrow> (nat \<times> ('t, 'e) callable) list" where
  "bindings_at i s = (case pool_at i s of Some p \<Rightarrow> bindings (mSignal p) | None \<Rightarrow> [])"

definition queue_at :: "nat \<Rightarrow> ('t, 'e) state \<Rightarrow> 'e list" where
  "queue_at i s = (case pool_at i s of Some p \<Rightarrow> mEventQueue p | None \<Rightarrow> [])"

definition on_pool ::
  "nat \<Rightarrow> (('t, 'e) EventPool \<Rightarrow> ('t, 'e) EventPool) \<Rightarrow> ('t, 'e) state \<Rightarrow> ('t, 'e) state" where
  "on_pool i f s =
     (case pool_at i s of
        Some p \<Rightarrow> s\<lparr>mEventPools := (mEventPools s)[i := Some (f p)]\<rparr>
      | None \<Rightarrow> s)"

subsection \<open>Enqueue\<close>

text \<open>
  Both overloads of \<^verbatim>\<open>EventPool::EnqueueEvent\<close> append the constructed event
  (\<^verbatim>\<open>push_back\<close> for an aggregate, \<^verbatim>\<open>emplace_back\<close> otherwise).
\<close>

definition EventPool_EnqueueEvent :: "'e \<Rightarrow> ('t, 'e) EventPool \<Rightarrow> ('t, 'e) EventPool" where
  "EventPool_EnqueueEvent e p = p\<lparr>mEventQueue := mEventQueue p @ [e]\<rparr>"

definition EnqueueEvent :: "'t \<Rightarrow> 'e \<Rightarrow> ('t, 'e) state \<Rightarrow> ('t, 'e) state" where
  "EnqueueEvent T e s =
     (let (i, s1) = GetEventHandler T (received (Call_Enqueue T) s)
      in on_pool i (EventPool_EnqueueEvent e) s1)"

subsection \<open>Calling the bound callables\<close>

text \<open>
  Modelled from the spec: \<^verbatim>\<open>mSignal(event)\<close> calls all bound callables in subscription
  order, "with one event instance": every callable receives the event that the
  dispatch point was called with (the signature is \<^verbatim>\<open>void(Event)\<close>, by value), whatever
  the callables before it did. A call is recorded, then the callable runs: it enqueues
  its events on the bus.
\<close>

definition call_callable ::
  "nat \<Rightarrow> nat \<Rightarrow> ('t, 'e) callable \<Rightarrow> 'e \<Rightarrow> ('t, 'e) state \<Rightarrow> ('t, 'e) state" where
  "call_callable i k f e s =
     fold (\<lambda>(T, x). EnqueueEvent T x) (f e) (s\<lparr>invoked := invoked s @ [Invoked i k e]\<rparr>)"

definition Signal_invoke :: "nat \<Rightarrow> 'e \<Rightarrow> ('t, 'e) state \<Rightarrow> ('t, 'e) state" where
  "Signal_invoke i e s = fold (\<lambda>(k, f). call_callable i k f e) (bindings_at i s) s"

subsection \<open>The member functions of a pool\<close>

definition EventPool_TriggerEvent :: "nat \<Rightarrow> 'e \<Rightarrow> ('t, 'e) state \<Rightarrow> ('t, 'e) state" where
  "EventPool_TriggerEvent i e s = Signal_invoke i e s"

definition EventPool_ClearEventQueue :: "('t, 'e) EventPool \<Rightarrow> ('t, 'e) EventPool" where
  "EventPool_ClearEventQueue p = p\<lparr>mEventQueue := []\<rparr>"

text \<open>
  \<^verbatim>\<open>for (auto &event : mEventQueue) mSignal(event);\<close> takes the two iterators of the
  vector once, before the first iteration, so the number of iterations is the length of
  the buffer when the call starts. \<open>walk_events i k m\<close> is the loop of pool \<open>i\<close> at
  position \<open>k\<close> with \<open>m\<close> iterations left: it reads the event at position \<open>k\<close> of the
  buffer and calls the dispatch point with it. When a callable has appended to this
  buffer meanwhile (\<^verbatim>\<open>push_back\<close> or \<^verbatim>\<open>emplace_back\<close> in \<^verbatim>\<open>EnqueueEvent\<close>), the loop's
  iterators are invalid, and each of the iterations that are left is made with what it
  reads through them (\<open>stale_events\<close>). The model keeps no capacity: it does not say
  whether the append moved the storage, and takes what is read from \<open>freed_event\<close> in
  both cases. Then \<^verbatim>\<open>ClearEventQueue()\<close> empties the vector as it is at that moment.
\<close>

fun stale_events :: "nat \<Rightarrow> nat \<Rightarrow> ('t, 'e) state \<Rightarrow> ('t, 'e) state" where
  "stale_events i 0 s = s"
| "stale_events i (Suc m) s =
     (let (e, s1) = stale_event s
      in stale_events i m (Signal_invoke i e s1))"

fun walk_events :: "nat \<Rightarrow> nat \<Rightarrow> nat \<Rightarrow> ('t, 'e) state \<Rightarrow> ('t, 'e) state" where
  "walk_events i k 0 s = s"
| "walk_events i k (Suc m) s =
     (if k < length (queue_at i s)
      then (let s' = Signal_invoke i (queue_at i s ! k) s
            in if length (queue_at i s') = length (queue_at i s)
               then walk_events i (Suc k) m s'
               else stale_events i m s')
      else s)"

definition EventPool_DispatchQueuedEvents :: "nat \<Rightarrow> ('t, 'e) state \<Rightarrow> ('t, 'e) state" where
  "EventPool_DispatchQueuedEvents i s =
     on_pool i EventPool_ClearEventQueue (walk_events i 0 (length (queue_at i s)) s)"

subsection \<open>The member functions of the bus\<close>

text \<open>
  \<^verbatim>\<open>TriggerEvent\<close> and \<^verbatim>\<open>EnqueueEvent\<close> have two overloads each, for constructor
  arguments and for an event that is already built; both resolve the pool and call the
  pool's function with what they were given.
\<close>

definition TriggerEvent :: "'t \<Rightarrow> 'e \<Rightarrow> ('t, 'e) state \<Rightarrow> ('t, 'e) state" where
  "TriggerEvent T e s =
     (let (i, s1) = GetEventHandler T (received (Call_Trigger T) s)
      in EventPool_TriggerEvent i e s1)"

text \<open>
  \<^verbatim>\<open>for (EventPoolBase *eventHandler : mEventPools)\<close> has as many iterations as the vector
  has slots when the call starts, and reads each slot when it reaches it.
  \<open>walk_slots k m\<close> is the loop at slot \<open>k\<close> with \<open>m\<close> iterations left. When the flush of
  a pool has made the vector grow (a callable enqueued an event whose type had no slot,
  and \<^verbatim>\<open>GetEventHandler\<close> called \<^verbatim>\<open>resize\<close>), the iterators are invalid: each of the
  slots that are left is read through them and is flushed or skipped accordingly
  (\<open>stale_slots\<close>, with \<open>freed_slot\<close> for what is read, whether the storage moved or
  not).
\<close>

definition flush_slot :: "nat \<Rightarrow> ('t, 'e) state \<Rightarrow> ('t, 'e) state" where
  "flush_slot k s =
     (case pool_at k s of
        Some _ \<Rightarrow> EventPool_DispatchQueuedEvents k s
      | None \<Rightarrow> s)"

fun stale_slots :: "nat \<Rightarrow> nat \<Rightarrow> ('t, 'e) state \<Rightarrow> ('t, 'e) state" where
  "stale_slots k 0 s = s"
| "stale_slots k (Suc m) s =
     (let (present, s1) = stale_slot s
      in stale_slots (Suc k) m (if present then flush_slot k s1 else s1))"

fun walk_slots :: "nat \<Rightarrow> nat \<Rightarrow> ('t, 'e) state \<Rightarrow> ('t, 'e) state" where
  "walk_slots k 0 s = s"
| "walk_slots k (Suc m) s =
     (let s' = flush_slot k s
      in if length (mEventPools s') = length (mEventPools s)
         then walk_slots (Suc k) m s'
         else stale_slots (Suc k) m s')"

definition DispatchQueuedEvents :: "('t, 'e) state \<Rightarrow> ('t, 'e) state" where
  "DispatchQueuedEvents s =
     walk_slots 0 (length (mEventPools s)) (received Call_Dispatch s)"

definition ClearEventQueues :: "('t, 'e) state \<Rightarrow> ('t, 'e) state" where
  "ClearEventQueues s =
     fold (\<lambda>i s'. case pool_at i s' of
                    Some _ \<Rightarrow> on_pool i EventPool_ClearEventQueue s'
                  | None \<Rightarrow> s')
       [0..<length (mEventPools s)] (received Call_Clear s)"

text \<open>\<^verbatim>\<open>(GetEventHandler<Events>().ClearEventQueue(), ...)\<close>: one type after the other.\<close>

definition ClearEventQueues_sel :: "'t list \<Rightarrow> ('t, 'e) state \<Rightarrow> ('t, 'e) state" where
  "ClearEventQueues_sel Ts s =
     fold (\<lambda>T s'. let (i, s1) = GetEventHandler T s'
                  in on_pool i EventPool_ClearEventQueue s1)
       Ts (received (Call_Clear_sel Ts) s)"

text \<open>
  \<^verbatim>\<open>SubscribeToEvent<Event>\<close> (both overloads) binds the callable in the pool's dispatch
  point and returns the connection: the pool's index and the slot of the binding.
  \<^verbatim>\<open>GetEventHandler\<close> has just made sure that the pool exists, so the branch for a
  missing pool is never taken.

  Modelled from the spec: \<^verbatim>\<open>UnsubscribeFromEvent\<close> is \<^verbatim>\<open>connection.Disconnect()\<close>, which
  revokes the binding the connection stands for and nothing else.
\<close>

definition SubscribeToEvent ::
  "'t \<Rightarrow> ('t, 'e) callable \<Rightarrow> ('t, 'e) state \<Rightarrow> (nat \<times> nat) \<times> ('t, 'e) state" where
  "SubscribeToEvent T f s =
     (let (i, s1) = GetEventHandler T (received (Call_Subscribe T) s)
      in case pool_at i s1 of
           Some p \<Rightarrow>
             (let (k, sg) = Bind f (mSignal p)
              in ((i, k), s1\<lparr>mEventPools := (mEventPools s1)[i := Some (p\<lparr>mSignal := sg\<rparr>)]\<rparr>))
         | None \<Rightarrow> ((i, 0), s1))"

definition UnsubscribeFromEvent :: "nat \<times> nat \<Rightarrow> ('t, 'e) state \<Rightarrow> ('t, 'e) state" where
  "UnsubscribeFromEvent connection s =
     on_pool (fst connection) (\<lambda>p. p\<lparr>mSignal := Disconnect (snd connection) (mSignal p)\<rparr>)
       (received Call_Unsubscribe s)"

text \<open>
  The selective \<^verbatim>\<open>DispatchQueuedEvents<Event...>\<close> is
  \<^verbatim>\<open>(GetEventHandler<Event>().DispatchEvents(), ...)\<close>. It names a member
  \<^verbatim>\<open>DispatchEvents\<close>; \<^verbatim>\<open>EventPool\<close> and its base declare the member functions
  \<^verbatim>\<open>TriggerEvent\<close>, \<^verbatim>\<open>EnqueueEvent\<close>, \<^verbatim>\<open>DispatchQueuedEvents\<close> and \<^verbatim>\<open>ClearEventQueue\<close>.
  The name is looked up when the template is instantiated, so the model looks it up at
  the call and returns an error where C++ rejects the instantiation. (The function is
  also declared \<^verbatim>\<open>const\<close> and calls the non-const \<^verbatim>\<open>GetEventHandler\<close>, which the same
  instantiations reject.) With an empty pack the fold expression is \<^verbatim>\<open>void()\<close>.
\<close>

datatype error = No_member string

definition EventPool_call ::
  "string \<Rightarrow> nat \<Rightarrow> ('t, 'e) state \<Rightarrow> error + ('t, 'e) state" where
  "EventPool_call m i s =
     (if m = ''DispatchQueuedEvents'' then Inr (EventPool_DispatchQueuedEvents i s)
      else if m = ''ClearEventQueue'' then Inr (on_pool i EventPool_ClearEventQueue s)
      else Inl (No_member m))"

fun DispatchQueuedEvents_sel :: "'t list \<Rightarrow> ('t, 'e) state \<Rightarrow> error + ('t, 'e) state" where
  "DispatchQueuedEvents_sel [] s = Inr s"
| "DispatchQueuedEvents_sel (T # Ts) s =
     (let (i, s1) = GetEventHandler T s
      in case EventPool_call ''DispatchEvents'' i s1 of
           Inl err \<Rightarrow> Inl err
         | Inr s2 \<Rightarrow> DispatchQueuedEvents_sel Ts s2)"

subsection \<open>Runs of a program on the bus\<close>

text \<open>
  The calls a well-formed program can make on the bus. The selective dispatch is not
  among them: no instantiation of it for an event type compiles.
\<close>

datatype ('t, 'e) op =
    Trigger 't 'e
  | Enqueue 't 'e
  | Subscribe 't "('t, 'e) callable"
  | Unsubscribe "nat \<times> nat"
  | Dispatch
  | Clear
  | Clear_sel "'t list"

fun exec :: "('t, 'e) op \<Rightarrow> ('t, 'e) state \<Rightarrow> ('t, 'e) state" where
  "exec (Trigger T e) s = TriggerEvent T e s"
| "exec (Enqueue T e) s = EnqueueEvent T e s"
| "exec (Subscribe T f) s = snd (SubscribeToEvent T f s)"
| "exec (Unsubscribe c) s = UnsubscribeFromEvent c s"
| "exec Dispatch s = DispatchQueuedEvents s"
| "exec Clear s = ClearEventQueues s"
| "exec (Clear_sel Ts) s = ClearEventQueues_sel Ts s"

definition run :: "('t, 'e) op list \<Rightarrow> ('t, 'e) state \<Rightarrow> ('t, 'e) state" where
  "run ops s = fold exec ops s"

subsection \<open>What a state says about an event type\<close>

definition pool_exists :: "'t \<Rightarrow> ('t, 'e) state \<Rightarrow> bool" where
  "pool_exists T s =
     (case eventID (statics s) T of
        Some i \<Rightarrow> pool_at i s \<noteq> None
      | None \<Rightarrow> False)"

definition bound :: "'t \<Rightarrow> ('t, 'e) state \<Rightarrow> (nat \<times> ('t, 'e) callable) list" where
  "bound T s = (case eventID (statics s) T of Some i \<Rightarrow> bindings_at i s | None \<Rightarrow> [])"

definition pending :: "'t \<Rightarrow> ('t, 'e) state \<Rightarrow> 'e list" where
  "pending T s = (case eventID (statics s) T of Some i \<Rightarrow> queue_at i s | None \<Rightarrow> [])"

text \<open>The id that a request for \<open>T\<close> returns in this state.\<close>

definition id_of :: "'t \<Rightarrow> ('t, 'e) state \<Rightarrow> nat" where
  "id_of T s = fst (GetEventId T (statics s))"

text \<open>The invocations that were made after the state \<open>s\<close>, up to the state \<open>s'\<close>.\<close>

definition invoked_since :: "('t, 'e) state \<Rightarrow> ('t, 'e) state \<Rightarrow> 'e invocation list" where
  "invoked_since s s' = drop (length (invoked s)) (invoked s')"

subsection \<open>Invariants\<close>

text \<open>
  The statics of the registry: every id given out is below the counter, and no id was
  given twice. The bus: its vector reaches no further than the ids given out.
\<close>

definition reg_ok :: "'t registry \<Rightarrow> bool" where
  "reg_ok r \<longleftrightarrow>
     (\<forall>T i. eventID r T = Some i \<longrightarrow> i < id_static r) \<and>
     (\<forall>T U i. eventID r T = Some i \<longrightarrow> eventID r U = Some i \<longrightarrow> T = U)"

definition wf :: "('t, 'e) state \<Rightarrow> bool" where
  "wf s \<longleftrightarrow> reg_ok (statics s) \<and> length (mEventPools s) \<le> id_static (statics s)"

subsection \<open>The dispatch as the spec describes it\<close>

text \<open>
  The spec, 4.2: the flush of a pool "invokes every currently-bound callable with each
  buffered event, in buffer order (oldest first), then clears the buffer"; and 4.3: the
  dispatch "flushes every pool that currently exists", in the order of the slots. The
  two definitions \<open>spec_flush\<close> and \<open>spec_dispatch\<close> follow these words of the spec, not
  the source: the buffer is the list of events it holds when the flush starts, and
  there are no iterators. The functions of the code, \<open>EventPool_DispatchQueuedEvents\<close>
  and \<open>DispatchQueuedEvents\<close> above, are compared with them.
\<close>

definition spec_flush :: "nat \<Rightarrow> ('t, 'e) state \<Rightarrow> ('t, 'e) state" where
  "spec_flush i s =
     on_pool i EventPool_ClearEventQueue (fold (Signal_invoke i) (queue_at i s) s)"

definition spec_dispatch :: "('t, 'e) state \<Rightarrow> ('t, 'e) state" where
  "spec_dispatch s =
     fold (\<lambda>i s'. case pool_at i s' of
                    Some _ \<Rightarrow> spec_flush i s'
                  | None \<Rightarrow> s')
       [0..<length (mEventPools s)] (received Call_Dispatch s)"

text \<open>
  The invocations of a flush as a list: each event in buffer order, and for each event
  the bound callables in subscription order.
\<close>

definition deliveries ::
  "nat \<Rightarrow> (nat \<times> ('t, 'e) callable) list \<Rightarrow> 'e list \<Rightarrow> 'e invocation list" where
  "deliveries i bs es = concat (map (\<lambda>e. map (\<lambda>b. Invoked i (fst b) e) bs) es)"

text \<open>Four callables for concrete runs, over event types and events in \<open>nat\<close>.\<close>

definition quiet :: "(nat, nat) callable" where
  "quiet e = []"

definition echo :: "(nat, nat) callable" where
  "echo e = [(0, e + 10)]"

definition forward :: "(nat, nat) callable" where
  "forward e = [(1, e)]"

definition spawn :: "(nat, nat) callable" where
  "spawn e = [(2, e)]"

text \<open>Released storage for concrete runs: every event read is 0, every slot null.\<close>

definition zeros :: "nat \<Rightarrow> nat" where
  "zeros r = 0"

definition nulls :: "nat \<Rightarrow> bool" where
  "nulls r = False"

text \<open>
  What the spec says of the ids: no two event types share one, and the ids given out
  are the numbers below the counter, all of them.
\<close>

definition ids_injective :: "'t registry \<Rightarrow> bool" where
  "ids_injective r \<longleftrightarrow> (\<forall>T U i. eventID r T = Some i \<longrightarrow> eventID r U = Some i \<longrightarrow> T = U)"

definition ids_dense :: "'t registry \<Rightarrow> bool" where
  "ids_dense r \<longleftrightarrow> (\<forall>i. i < id_static r \<longleftrightarrow> (\<exists>T. eventID r T = Some i))"

text \<open>The events of type \<open>U\<close> that a callable enqueues when it is called with \<open>e\<close>.\<close>

definition enqueued_for :: "'t \<Rightarrow> ('t, 'e) callable \<Rightarrow> 'e \<Rightarrow> 'e list" where
  "enqueued_for U f e = map snd (filter (\<lambda>p. fst p = U) (f e))"

text \<open>
  A state in which no bound callable enqueues anything when it is called with an event
  that is pending for it.
\<close>

definition silent :: "('t, 'e) state \<Rightarrow> bool" where
  "silent s \<longleftrightarrow> (\<forall>i. \<forall>b\<in>set (bindings_at i s). \<forall>e\<in>set (queue_at i s). snd b e = [])"

text \<open>
  No callable bound to another type's pool ever enqueues an event of type \<open>T\<close>. (The
  callables bound to \<open>T\<close> itself may enqueue what they like.)
\<close>

definition others_enqueue_none :: "'t \<Rightarrow> ('t, 'e) state \<Rightarrow> bool" where
  "others_enqueue_none T s \<longleftrightarrow>
     (\<forall>j. j \<noteq> id_of T s \<longrightarrow> (\<forall>b\<in>set (bindings_at j s). \<forall>e. enqueued_for T (snd b) e = []))"

text \<open>
  The event types a call names: for the three operations of the spec's invariant
  (trigger, enqueue, subscribe), and for every operation that resolves a pool in the
  code (these three and the selective clear).
\<close>

fun three_ops :: "'t call \<Rightarrow> 't list" where
  "three_ops (Call_Trigger T) = [T]"
| "three_ops (Call_Enqueue T) = [T]"
| "three_ops (Call_Subscribe T) = [T]"
| "three_ops _ = []"

fun pool_ops :: "'t call \<Rightarrow> 't list" where
  "pool_ops (Call_Clear_sel Ts) = Ts"
| "pool_ops c = three_ops c"

text \<open>The event types named by the calls that the bus has received so far.\<close>

definition touched :: "('t call \<Rightarrow> 't list) \<Rightarrow> ('t, 'e) state \<Rightarrow> 't set" where
  "touched f s = (\<Union>c\<in>set (calls s). set (f c))"

text \<open>
  The invariant of the bus: the types that have a pool are the types named by a call
  that resolves a pool. \<open>follows s s'\<close>: the invariant holds in \<open>s'\<close>, which has received
  the calls of \<open>s\<close> and possibly more.
\<close>

definition pools_match :: "('t, 'e) state \<Rightarrow> bool" where
  "pools_match s \<longleftrightarrow> wf s \<and> (\<forall>T. pool_exists T s \<longleftrightarrow> T \<in> touched pool_ops s)"

definition follows :: "('t, 'e) state \<Rightarrow> ('t, 'e) state \<Rightarrow> bool" where
  "follows s s' \<longleftrightarrow> pools_match s' \<and> set (calls s) \<subseteq> set (calls s')"

text \<open>
  Every event that a callable enqueues is of a type that has a slot in \<^verbatim>\<open>mEventPools\<close>
  already, and not the slot of the pool the callable is bound in: no enqueue made
  during a dispatch appends to the buffer that is being flushed or makes \<^verbatim>\<open>mEventPools\<close>
  grow, so no iterator of a running loop is invalidated.
\<close>

definition safe_pass :: "('t, 'e) state \<Rightarrow> bool" where
  "safe_pass s \<longleftrightarrow>
     (\<forall>j. \<forall>b\<in>set (bindings_at j s). \<forall>e. \<forall>t\<in>fst ` set (snd b e).
        \<exists>k. eventID (statics s) t = Some k \<and> k < length (mEventPools s) \<and> k \<noteq> j)"

text \<open>
  From \<open>s\<close> to \<open>s'\<close> callables were called through the dispatch point of pool \<open>i\<close> and
  through no other.
\<close>

definition calls_through :: "nat \<Rightarrow> ('t, 'e) state \<Rightarrow> ('t, 'e) state \<Rightarrow> bool" where
  "calls_through i s s' \<longleftrightarrow> (\<exists>X. invoked s' = invoked s @ X \<and> (\<forall>x\<in>set X. pool_of x = i))"

text \<open>
  Two states with the same registry, as many slots in \<^verbatim>\<open>mEventPools\<close> and the same bound
  callables.
\<close>

definition same_frame :: "('t, 'e) state \<Rightarrow> ('t, 'e) state \<Rightarrow> bool" where
  "same_frame s s' \<longleftrightarrow>
     statics s' = statics s \<and> length (mEventPools s') = length (mEventPools s) \<and>
     (\<forall>j. bindings_at j s' = bindings_at j s)"

section \<open>Basic facts\<close>

subsection \<open>The registry\<close>

lemma GetEventId_Some: "eventID r T = Some i \<Longrightarrow> GetEventId T r = (i, r)"
  by (simp add: GetEventId_def)

lemma GetEventId_None:
  "eventID r T = None \<Longrightarrow>
   GetEventId T r = (id_static r, r\<lparr>id_static := id_static r + 1, eventID := (eventID r)(T \<mapsto> id_static r)\<rparr>)"
  by (simp add: GetEventId_def GetUniqueEventId_def)

lemma eventID_GetEventId:
  "eventID (snd (GetEventId T r)) = (eventID r)(T \<mapsto> fst (GetEventId T r))"
  by (cases "eventID r T") (auto simp: GetEventId_Some GetEventId_None)

lemma id_static_GetEventId:
  "id_static (snd (GetEventId T r)) = (if eventID r T = None then id_static r + 1 else id_static r)"
  by (cases "eventID r T") (auto simp: GetEventId_Some GetEventId_None)

lemma fst_GetEventId:
  "fst (GetEventId T r) = (case eventID r T of Some i \<Rightarrow> i | None \<Rightarrow> id_static r)"
  by (cases "eventID r T") (auto simp: GetEventId_Some GetEventId_None)

lemma reg_ok_GetEventId: "reg_ok r \<Longrightarrow> reg_ok (snd (GetEventId T r))"
  unfolding reg_ok_def eventID_GetEventId id_static_GetEventId fst_GetEventId
  by (fastforce split: option.splits if_splits)

lemma reg_ok_id_less: "reg_ok r \<Longrightarrow> fst (GetEventId T r) < id_static (snd (GetEventId T r))"
  unfolding reg_ok_def id_static_GetEventId fst_GetEventId
  by (auto split: option.splits)

lemma reg_ok_distinct_ids:
  "reg_ok r \<Longrightarrow> T \<noteq> U \<Longrightarrow> eventID r U = Some j \<Longrightarrow> fst (GetEventId T r) \<noteq> j"
  unfolding reg_ok_def fst_GetEventId
  by (fastforce split: option.splits)

subsection \<open>Reading the pools after a step\<close>

lemma pool_at_on_pool:
  "pool_at j (on_pool i f s) = (if j = i then map_option f (pool_at i s) else pool_at j s)"
  by (auto simp: on_pool_def pool_at_def split: option.splits)

lemma on_pool_fields [simp]:
  "statics (on_pool i f s) = statics s"
  "invoked (on_pool i f s) = invoked s"
  "calls (on_pool i f s) = calls s"
  "length (mEventPools (on_pool i f s)) = length (mEventPools s)"
  by (auto simp: on_pool_def split: option.splits)

lemma received_fields [simp]:
  "statics (received c s) = statics s"
  "invoked (received c s) = invoked s"
  "calls (received c s) = calls s @ [c]"
  "mEventPools (received c s) = mEventPools s"
  "pool_at j (received c s) = pool_at j s"
  by (auto simp: received_def pool_at_def)

lemma GetEventHandler_fst: "fst (GetEventHandler T s) = id_of T s"
  by (simp add: GetEventHandler_def id_of_def Let_def split: prod.splits)

lemma GetEventHandler_fields [simp]:
  "statics (snd (GetEventHandler T s)) = snd (GetEventId T (statics s))"
  "invoked (snd (GetEventHandler T s)) = invoked s"
  "calls (snd (GetEventHandler T s)) = calls s"
  by (auto simp: GetEventHandler_def Let_def split: prod.splits)

lemma length_GetEventHandler:
  "length (mEventPools (snd (GetEventHandler T s))) = max (length (mEventPools s)) (id_of T s + 1)"
  by (auto simp: GetEventHandler_def id_of_def Let_def resize_def split: prod.splits)

lemma pool_at_GetEventHandler:
  "pool_at j (snd (GetEventHandler T s)) =
     (if j = id_of T s
      then Some (case pool_at j s of Some p \<Rightarrow> p | None \<Rightarrow> EventPool_new)
      else pool_at j s)"
  by (auto simp: GetEventHandler_def id_of_def Let_def resize_def pool_at_def nth_append
      split: prod.splits option.splits)

lemma id_of_received [simp]: "id_of T (received c s) = id_of T s"
  by (simp add: id_of_def)

lemma EnqueueEvent_fields:
  "statics (EnqueueEvent T e s) = snd (GetEventId T (statics s))"
  "invoked (EnqueueEvent T e s) = invoked s"
  "calls (EnqueueEvent T e s) = calls s @ [Call_Enqueue T]"
  "length (mEventPools (EnqueueEvent T e s)) = max (length (mEventPools s)) (id_of T s + 1)"
  by (simp_all add: EnqueueEvent_def split_beta length_GetEventHandler)

lemma pool_at_EnqueueEvent:
  "pool_at j (EnqueueEvent T e s) =
     (if j = id_of T s
      then Some (EventPool_EnqueueEvent e (case pool_at j s of Some p \<Rightarrow> p | None \<Rightarrow> EventPool_new))
      else pool_at j s)"
  by (simp add: EnqueueEvent_def split_beta pool_at_on_pool pool_at_GetEventHandler GetEventHandler_fst)

lemma bindings_at_EnqueueEvent: "bindings_at j (EnqueueEvent T e s) = bindings_at j s"
  by (simp add: bindings_at_def pool_at_EnqueueEvent EventPool_EnqueueEvent_def EventPool_new_def
      Signal_init_def split: option.splits)

lemma queue_at_EnqueueEvent:
  "queue_at j (EnqueueEvent T e s) = (if j = id_of T s then queue_at j s @ [e] else queue_at j s)"
  by (simp add: queue_at_def pool_at_EnqueueEvent EventPool_EnqueueEvent_def EventPool_new_def
      split: option.splits)

lemma wf_EnqueueEvent: "wf s \<Longrightarrow> wf (EnqueueEvent T e s)"
  using reg_ok_id_less [of "statics s" T]
  by (auto simp: wf_def EnqueueEvent_fields reg_ok_GetEventId id_of_def id_static_GetEventId
      split: if_splits)

lemma eventID_EnqueueEvent:
  "eventID (statics s) U = Some j \<Longrightarrow> eventID (statics (EnqueueEvent T e s)) U = Some j"
  by (auto simp: EnqueueEvent_fields eventID_GetEventId fst_GetEventId)

lemma exists_EnqueueEvent: "pool_at j s \<noteq> None \<Longrightarrow> pool_at j (EnqueueEvent T e s) \<noteq> None"
  by (simp add: pool_at_EnqueueEvent)

lemma queue_at_EnqueueEvent_other:
  "wf s \<Longrightarrow> eventID (statics s) U = Some j \<Longrightarrow> T \<noteq> U \<Longrightarrow>
   queue_at j (EnqueueEvent T e s) = queue_at j s"
  using reg_ok_distinct_ids [of "statics s" T U j]
  by (simp add: queue_at_EnqueueEvent id_of_def wf_def)

text \<open>What a callable does: a list of enqueues.\<close>

lemma enqueues_fields:
  "invoked (fold (\<lambda>(T, x). EnqueueEvent T x) xs s) = invoked s"
  "bindings_at j (fold (\<lambda>(T, x). EnqueueEvent T x) xs s) = bindings_at j s"
  by (induction xs arbitrary: s) (auto simp: EnqueueEvent_fields bindings_at_EnqueueEvent)

lemma enqueues_wf: "wf s \<Longrightarrow> wf (fold (\<lambda>(T, x). EnqueueEvent T x) xs s)"
  by (induction xs arbitrary: s) (auto simp: wf_EnqueueEvent)

lemma enqueues_eventID:
  "eventID (statics s) U = Some j \<Longrightarrow>
   eventID (statics (fold (\<lambda>(T, x). EnqueueEvent T x) xs s)) U = Some j"
  by (induction xs arbitrary: s) (auto simp: eventID_EnqueueEvent)

lemma enqueues_exists:
  "pool_at j s \<noteq> None \<Longrightarrow> pool_at j (fold (\<lambda>(T, x). EnqueueEvent T x) xs s) \<noteq> None"
  by (induction xs arbitrary: s) (simp_all add: exists_EnqueueEvent split_beta del: not_None_eq)

lemma enqueues_queue_other:
  "wf s \<Longrightarrow> eventID (statics s) U = Some j \<Longrightarrow> U \<notin> fst ` set xs \<Longrightarrow>
   queue_at j (fold (\<lambda>(T, x). EnqueueEvent T x) xs s) = queue_at j s"
proof (induction xs arbitrary: s)
  case Nil
  show ?case by simp
next
  case (Cons a xs)
  obtain T x where a: "a = (T, x)" by (cases a)
  from Cons.prems a have neq: "T \<noteq> U" and rest: "U \<notin> fst ` set xs" by auto
  have "queue_at j (fold (\<lambda>(T, x). EnqueueEvent T x) xs (EnqueueEvent T x s))
        = queue_at j (EnqueueEvent T x s)"
    using Cons.prems(1,2) rest
    by (intro Cons.IH wf_EnqueueEvent eventID_EnqueueEvent)
  then show ?case
    using Cons.prems(1,2) neq by (simp add: a queue_at_EnqueueEvent_other)
qed

lemma invoked_update_obs [simp]:
  "pool_at j (s\<lparr>invoked := v\<rparr>) = pool_at j s"
  "bindings_at j (s\<lparr>invoked := v\<rparr>) = bindings_at j s"
  "queue_at j (s\<lparr>invoked := v\<rparr>) = queue_at j s"
  "wf (s\<lparr>invoked := v\<rparr>) = wf s"
  by (simp_all add: pool_at_def bindings_at_def queue_at_def wf_def)

lemma call_callable_fields:
  "invoked (call_callable i k f e s) = invoked s @ [Invoked i k e]"
  "bindings_at j (call_callable i k f e s) = bindings_at j s"
  by (simp_all add: call_callable_def enqueues_fields)

lemma call_callable_wf: "wf s \<Longrightarrow> wf (call_callable i k f e s)"
  unfolding call_callable_def by (rule enqueues_wf) simp

lemma call_callable_eventID:
  "eventID (statics s) U = Some j \<Longrightarrow> eventID (statics (call_callable i k f e s)) U = Some j"
  unfolding call_callable_def by (rule enqueues_eventID) simp

lemma call_callable_exists:
  "pool_at j s \<noteq> None \<Longrightarrow> pool_at j (call_callable i k f e s) \<noteq> None"
  unfolding call_callable_def by (rule enqueues_exists) simp

lemma call_callable_queue_other:
  "wf s \<Longrightarrow> eventID (statics s) U = Some j \<Longrightarrow> U \<notin> fst ` set (f e) \<Longrightarrow>
   queue_at j (call_callable i k f e s) = queue_at j s"
  unfolding call_callable_def
  by (subst enqueues_queue_other [where U = U]) simp_all

lemma calls_fields:
  "invoked (fold (\<lambda>(k, f). call_callable i k f e) bs s) = invoked s @ map (\<lambda>b. Invoked i (fst b) e) bs"
  "bindings_at j (fold (\<lambda>(k, f). call_callable i k f e) bs s) = bindings_at j s"
  by (induction bs arbitrary: s) (auto simp: call_callable_fields)

lemma calls_wf: "wf s \<Longrightarrow> wf (fold (\<lambda>(k, f). call_callable i k f e) bs s)"
  by (induction bs arbitrary: s) (auto simp: call_callable_wf)

lemma calls_eventID:
  "eventID (statics s) U = Some j \<Longrightarrow>
   eventID (statics (fold (\<lambda>(k, f). call_callable i k f e) bs s)) U = Some j"
  by (induction bs arbitrary: s) (auto simp: call_callable_eventID)

lemma calls_exists:
  "pool_at j s \<noteq> None \<Longrightarrow> pool_at j (fold (\<lambda>(k, f). call_callable i k f e) bs s) \<noteq> None"
  by (induction bs arbitrary: s) (simp_all add: call_callable_exists split_beta del: not_None_eq)

lemma calls_queue_other:
  "wf s \<Longrightarrow> eventID (statics s) U = Some j \<Longrightarrow> \<forall>b\<in>set bs. U \<notin> fst ` set (snd b e) \<Longrightarrow>
   queue_at j (fold (\<lambda>(k, f). call_callable i k f e) bs s) = queue_at j s"
proof (induction bs arbitrary: s)
  case Nil
  show ?case by simp
next
  case (Cons b bs)
  obtain k f where b: "b = (k, f)" by (cases b)
  from Cons.prems(3) b have here: "U \<notin> fst ` set (f e)" by simp
  have "queue_at j (fold (\<lambda>(k, f). call_callable i k f e) bs (call_callable i k f e s))
        = queue_at j (call_callable i k f e s)"
    using Cons.prems by (intro Cons.IH call_callable_wf call_callable_eventID) simp_all
  then show ?case
    using Cons.prems(1,2) here by (simp add: b call_callable_queue_other)
qed

lemma Signal_invoke_fields:
  "invoked (Signal_invoke i e s) = invoked s @ map (\<lambda>b. Invoked i (fst b) e) (bindings_at i s)"
  "bindings_at j (Signal_invoke i e s) = bindings_at j s"
  by (simp_all add: Signal_invoke_def calls_fields)

lemma Signal_invoke_wf: "wf s \<Longrightarrow> wf (Signal_invoke i e s)"
  by (simp add: Signal_invoke_def calls_wf)

lemma Signal_invoke_eventID:
  "eventID (statics s) U = Some j \<Longrightarrow> eventID (statics (Signal_invoke i e s)) U = Some j"
  by (simp add: Signal_invoke_def calls_eventID)

lemma Signal_invoke_exists: "pool_at j s \<noteq> None \<Longrightarrow> pool_at j (Signal_invoke i e s) \<noteq> None"
  by (simp add: Signal_invoke_def calls_exists)

lemma Signal_invoke_queue_other:
  "wf s \<Longrightarrow> eventID (statics s) U = Some j \<Longrightarrow>
   \<forall>b\<in>set (bindings_at i s). U \<notin> fst ` set (snd b e) \<Longrightarrow>
   queue_at j (Signal_invoke i e s) = queue_at j s"
  by (simp add: Signal_invoke_def calls_queue_other)

text \<open>The loop of a flush, over any list of events.\<close>

lemma loop_fields:
  "invoked (fold (Signal_invoke i) es s) = invoked s @ deliveries i (bindings_at i s) es"
  "bindings_at j (fold (Signal_invoke i) es s) = bindings_at j s"
  by (induction es arbitrary: s) (auto simp: Signal_invoke_fields deliveries_def)

lemma loop_wf: "wf s \<Longrightarrow> wf (fold (Signal_invoke i) es s)"
  by (induction es arbitrary: s) (auto simp: Signal_invoke_wf)

lemma loop_eventID:
  "eventID (statics s) U = Some j \<Longrightarrow> eventID (statics (fold (Signal_invoke i) es s)) U = Some j"
  by (induction es arbitrary: s) (auto simp: Signal_invoke_eventID)

lemma loop_exists: "pool_at j s \<noteq> None \<Longrightarrow> pool_at j (fold (Signal_invoke i) es s) \<noteq> None"
  by (induction es arbitrary: s) (simp_all add: Signal_invoke_exists del: not_None_eq)

lemma loop_queue_other:
  "wf s \<Longrightarrow> eventID (statics s) U = Some j \<Longrightarrow>
   \<forall>b\<in>set (bindings_at i s). \<forall>e\<in>set es. U \<notin> fst ` set (snd b e) \<Longrightarrow>
   queue_at j (fold (Signal_invoke i) es s) = queue_at j s"
proof (induction es arbitrary: s)
  case Nil
  show ?case by simp
next
  case (Cons e es)
  have "queue_at j (fold (Signal_invoke i) es (Signal_invoke i e s)) = queue_at j (Signal_invoke i e s)"
    using Cons.prems
    by (intro Cons.IH Signal_invoke_wf Signal_invoke_eventID) (simp_all add: Signal_invoke_fields)
  then show ?case
    using Cons.prems by (simp add: Signal_invoke_queue_other)
qed

subsection \<open>The flush of one pool\<close>

lemma clear_obs:
  "bindings_at j (on_pool i EventPool_ClearEventQueue s) = bindings_at j s"
  "queue_at j (on_pool i EventPool_ClearEventQueue s) = (if j = i then [] else queue_at j s)"
  by (auto simp: bindings_at_def queue_at_def pool_at_on_pool EventPool_ClearEventQueue_def
      split: option.splits)

lemma on_pool_exists: "pool_at j (on_pool i f s) \<noteq> None \<longleftrightarrow> pool_at j s \<noteq> None"
  by (simp add: pool_at_on_pool)

lemma on_pool_wf: "wf (on_pool i f s) = wf s"
  by (simp add: wf_def)

lemma flush_fields:
  "invoked (spec_flush i s) = invoked s @ deliveries i (bindings_at i s) (queue_at i s)"
  "bindings_at j (spec_flush i s) = bindings_at j s"
  "queue_at i (spec_flush i s) = []"
  by (simp_all add: spec_flush_def loop_fields clear_obs)

lemma flush_wf: "wf s \<Longrightarrow> wf (spec_flush i s)"
  by (simp add: spec_flush_def loop_wf on_pool_wf)

lemma flush_eventID:
  "eventID (statics s) U = Some j \<Longrightarrow>
   eventID (statics (spec_flush i s)) U = Some j"
  by (simp add: spec_flush_def loop_eventID)

lemma flush_exists:
  "pool_at j s \<noteq> None \<Longrightarrow> pool_at j (spec_flush i s) \<noteq> None"
  unfolding spec_flush_def on_pool_exists by (rule loop_exists)

lemma flush_queue_other:
  "wf s \<Longrightarrow> eventID (statics s) U = Some j \<Longrightarrow> j \<noteq> i \<Longrightarrow>
   \<forall>b\<in>set (bindings_at i s). \<forall>e\<in>set (queue_at i s). U \<notin> fst ` set (snd b e) \<Longrightarrow>
   queue_at j (spec_flush i s) = queue_at j s"
  by (simp add: spec_flush_def clear_obs loop_queue_other)

text \<open>The definitions that a concrete run unfolds.\<close>

lemmas unfold_model =
  run_def bus_new_def registry_init_def quiet_def echo_def SubscribeToEvent_def
  GetEventHandler_def GetEventId_def GetUniqueEventId_def received_def resize_def pool_at_def
  Bind_def Disconnect_def EventPool_new_def Signal_init_def EnqueueEvent_def on_pool_def
  EventPool_EnqueueEvent_def DispatchQueuedEvents_def EventPool_DispatchQueuedEvents_def
  flush_slot_def stale_event_def stale_slot_def zeros_def nulls_def
  TriggerEvent_def EventPool_TriggerEvent_def ClearEventQueues_def ClearEventQueues_sel_def
  UnsubscribeFromEvent_def queue_at_def bindings_at_def Signal_invoke_def call_callable_def
  EventPool_ClearEventQueue_def requests_def pool_exists_def bound_def pending_def id_of_def
  invoked_since_def deliveries_def Let_def upt_rec

section \<open>The ids of the event types\<close>

lemma requests_Cons: "requests (T # Ts) r = requests Ts (snd (GetEventId T r))"
  by (simp add: requests_def)

lemma requests_snoc: "requests (Ts @ [T]) r = snd (GetEventId T (requests Ts r))"
  by (simp add: requests_def)

lemma GetEventId_keep:
  "eventID r T = Some i \<Longrightarrow> eventID (snd (GetEventId U r)) T = Some i"
  by (auto simp: eventID_GetEventId fst_GetEventId)

lemma requests_keep: "eventID r T = Some i \<Longrightarrow> eventID (requests Us r) T = Some i"
  by (induction Us arbitrary: r) (simp_all add: requests_def GetEventId_keep)

lemma dense_GetEventId:
  assumes "ids_dense r"
  shows "ids_dense (snd (GetEventId T r))"
proof (cases "eventID r T")
  case (Some a)
  with assms show ?thesis by (simp add: GetEventId_Some)
next
  case None
  have "(i < id_static r + 1) = (\<exists>U. ((eventID r)(T \<mapsto> id_static r)) U = Some i)" for i
  proof
    assume "i < id_static r + 1"
    then consider "i < id_static r" | "i = id_static r" by linarith
    then show "\<exists>U. ((eventID r)(T \<mapsto> id_static r)) U = Some i"
    proof cases
      case 1
      with assms obtain U where U: "eventID r U = Some i"
        by (auto simp: ids_dense_def)
      with None have "U \<noteq> T" by auto
      with U show ?thesis by auto
    next
      case 2
      then show ?thesis by auto
    qed
  next
    assume "\<exists>U. ((eventID r)(T \<mapsto> id_static r)) U = Some i"
    then obtain U where U: "((eventID r)(T \<mapsto> id_static r)) U = Some i" ..
    show "i < id_static r + 1"
    proof (cases "U = T")
      case True
      with U show ?thesis by simp
    next
      case False
      with U have "eventID r U = Some i" by simp
      with assms have "i < id_static r" by (auto simp: ids_dense_def)
      then show ?thesis by simp
    qed
  qed
  with None show ?thesis
    by (simp add: GetEventId_None ids_dense_def)
qed

lemma injective_GetEventId:
  assumes "ids_dense r" and "ids_injective r"
  shows "ids_injective (snd (GetEventId T r))"
proof (cases "eventID r T")
  case (Some a)
  with assms show ?thesis by (simp add: GetEventId_Some)
next
  case None
  have fresh: "eventID r U \<noteq> Some (id_static r)" for U
    using assms(1) by (auto simp: ids_dense_def)
  show ?thesis
    using assms(2) fresh None
    by (auto simp: GetEventId_None ids_injective_def split: if_splits)
qed

lemma requests_init:
  "ids_dense (requests Ts registry_init) \<and> ids_injective (requests Ts registry_init) \<and>
   (\<forall>T. eventID (requests Ts registry_init) T \<noteq> None \<longleftrightarrow> T \<in> set Ts)"
proof (induction Ts rule: rev_induct)
  case Nil
  show ?case by (simp add: requests_def registry_init_def ids_dense_def ids_injective_def)
next
  case (snoc T Ts)
  then show ?case
    by (auto simp: requests_snoc dense_GetEventId injective_GetEventId eventID_GetEventId)
qed

text \<open>
  C4: the first request for an event type takes the next value of the one counter and
  caches it; every later request for the type, after any other requests, returns the
  cached id and changes nothing; and after any sequence of requests from the start of
  the process, no two event types share an id, the ids given out are exactly the
  numbers from 0 up to the counter, and the types that have one are the types requested.
\<close>

theorem registry_ids:
  "(eventID r T = None \<longrightarrow>
      GetEventId T r =
        (id_static r, r\<lparr>id_static := id_static r + 1, eventID := (eventID r)(T \<mapsto> id_static r)\<rparr>)) \<and>
   GetEventId T (requests Us (snd (GetEventId T r))) =
     (fst (GetEventId T r), requests Us (snd (GetEventId T r))) \<and>
   ids_injective (requests Ts registry_init) \<and>
   ids_dense (requests Ts registry_init) \<and>
   (\<forall>U. eventID (requests Ts registry_init) U \<noteq> None \<longleftrightarrow> U \<in> set Ts)"
proof -
  have "eventID (snd (GetEventId T r)) T = Some (fst (GetEventId T r))"
    by (simp add: eventID_GetEventId)
  then have "eventID (requests Us (snd (GetEventId T r))) T = Some (fst (GetEventId T r))"
    by (rule requests_keep)
  then have "GetEventId T (requests Us (snd (GetEventId T r))) =
     (fst (GetEventId T r), requests Us (snd (GetEventId T r)))"
    by (rule GetEventId_Some)
  then show ?thesis
    using requests_init [of Ts] by (simp add: GetEventId_None)
qed

text \<open>The ids of the requests for the types 5, 7, 5, 9, in this order: 0, 1 and 2.\<close>

theorem registry_ids_witness:
  "eventID (registry_init :: nat registry) 5 = None \<and>
   GetEventId (5::nat) registry_init = (0, \<lparr>id_static = 1, eventID = (\<lambda>_. None)(5 \<mapsto> 0)\<rparr>) \<and>
   fst (GetEventId (5::nat) (requests [7, 5, 9] (snd (GetEventId 5 registry_init)))) = 0 \<and>
   id_static (requests [5, 7, 5, 9 :: nat] registry_init) = 3 \<and>
   map (eventID (requests [5, 7, 5, 9 :: nat] registry_init)) [5, 7, 9, 6] = [Some 0, Some 1, Some 2, None] \<and>
   ids_injective (requests [5, 7, 5, 9 :: nat] registry_init) \<and>
   ids_dense (requests [5, 7, 5, 9 :: nat] registry_init)"
  using registry_ids [of "registry_init :: nat registry" 5 "[7, 5, 9]" "[5, 7, 5, 9 :: nat]"]
  by (simp add: unfold_model)

section \<open>Trigger\<close>

lemma id_of_Some: "eventID (statics s) T = Some i \<Longrightarrow> id_of T s = i"
  by (simp add: id_of_def GetEventId_Some)

lemma wf_no_pool_beyond: "wf s \<Longrightarrow> eventID (statics s) T = None \<Longrightarrow> pool_at (id_of T s) s = None"
  by (simp add: wf_def id_of_def GetEventId_None pool_at_def)

lemma wf_bound: "wf s \<Longrightarrow> bindings_at (id_of T s) s = bound T s"
  by (cases "eventID (statics s) T")
     (simp_all add: bound_def id_of_Some wf_no_pool_beyond bindings_at_def)

lemma wf_pending: "wf s \<Longrightarrow> queue_at (id_of T s) s = pending T s"
  by (cases "eventID (statics s) T")
     (simp_all add: pending_def id_of_Some wf_no_pool_beyond queue_at_def)

lemma eventID_id_of: "eventID (snd (GetEventId T (statics s))) T = Some (id_of T s)"
  by (simp add: eventID_GetEventId id_of_def)

lemma GetEventHandler_obs:
  "bindings_at j (snd (GetEventHandler T s)) = bindings_at j s"
  "queue_at j (snd (GetEventHandler T s)) = queue_at j s"
  by (auto simp: bindings_at_def queue_at_def pool_at_GetEventHandler EventPool_new_def
      Signal_init_def split: option.splits)

lemma GetEventHandler_wf: "wf s \<Longrightarrow> wf (snd (GetEventHandler T s))"
  using reg_ok_id_less [of "statics s" T]
  by (auto simp: wf_def length_GetEventHandler reg_ok_GetEventId id_of_def id_static_GetEventId
      split: if_splits)

lemma received_obs [simp]:
  "bindings_at j (received c s) = bindings_at j s"
  "queue_at j (received c s) = queue_at j s"
  "wf (received c s) = wf s"
  "bound T (received c s) = bound T s"
  "pending T (received c s) = pending T s"
  by (simp_all add: bindings_at_def queue_at_def wf_def bound_def pending_def split: option.splits)

lemma enqueues_queue:
  "wf s \<Longrightarrow> eventID (statics s) U = Some j \<Longrightarrow>
   queue_at j (fold (\<lambda>(T, x). EnqueueEvent T x) xs s)
     = queue_at j s @ map snd (filter (\<lambda>p. fst p = U) xs)"
proof (induction xs arbitrary: s)
  case Nil
  show ?case by simp
next
  case (Cons a xs)
  obtain T x where a: "a = (T, x)" by (cases a)
  have step: "queue_at j (EnqueueEvent T x s) = queue_at j s @ (if T = U then [x] else [])"
  proof (cases "T = U")
    case True
    with Cons.prems(2) show ?thesis by (simp add: queue_at_EnqueueEvent id_of_Some)
  next
    case False
    with Cons.prems show ?thesis by (simp add: queue_at_EnqueueEvent_other)
  qed
  have "queue_at j (fold (\<lambda>(T, x). EnqueueEvent T x) xs (EnqueueEvent T x s))
        = queue_at j (EnqueueEvent T x s) @ map snd (filter (\<lambda>p. fst p = U) xs)"
    using Cons.prems by (intro Cons.IH wf_EnqueueEvent eventID_EnqueueEvent)
  then show ?case by (simp add: a step)
qed

lemma call_callable_queue:
  "wf s \<Longrightarrow> eventID (statics s) U = Some j \<Longrightarrow>
   queue_at j (call_callable i k f e s) = queue_at j s @ enqueued_for U f e"
  unfolding call_callable_def enqueued_for_def
  by (subst enqueues_queue [where U = U]) simp_all

lemma calls_queue:
  "wf s \<Longrightarrow> eventID (statics s) U = Some j \<Longrightarrow>
   queue_at j (fold (\<lambda>(k, f). call_callable i k f e) bs s)
     = queue_at j s @ concat (map (\<lambda>b. enqueued_for U (snd b) e) bs)"
proof (induction bs arbitrary: s)
  case Nil
  show ?case by simp
next
  case (Cons b bs)
  obtain k f where b: "b = (k, f)" by (cases b)
  have "queue_at j (fold (\<lambda>(k, f). call_callable i k f e) bs (call_callable i k f e s))
        = queue_at j (call_callable i k f e s) @ concat (map (\<lambda>b. enqueued_for U (snd b) e) bs)"
    using Cons.prems by (intro Cons.IH call_callable_wf call_callable_eventID)
  then show ?case
    using Cons.prems by (simp add: b call_callable_queue)
qed

lemma Signal_invoke_queue:
  "wf s \<Longrightarrow> eventID (statics s) U = Some j \<Longrightarrow>
   queue_at j (Signal_invoke i e s)
     = queue_at j s @ concat (map (\<lambda>b. enqueued_for U (snd b) e) (bindings_at i s))"
  by (simp add: Signal_invoke_def calls_queue)

lemma TriggerEvent_unfold:
  "TriggerEvent T a s = Signal_invoke (id_of T s) a (snd (GetEventHandler T (received (Call_Trigger T) s)))"
  by (simp add: TriggerEvent_def EventPool_TriggerEvent_def split_beta GetEventHandler_fst)

text \<open>
  C5: \<^verbatim>\<open>TriggerEvent<T>(a)\<close> calls every callable bound to \<open>T\<close> once with the event,
  in subscription order, and nothing else; the calls are made when it returns. The
  event is not buffered: the pending buffer of \<open>T\<close> grows only by what the called
  callables themselves enqueue for \<open>T\<close>, so it is unchanged when they enqueue nothing
  for \<open>T\<close>. The bound callables stay as they are.
\<close>

theorem trigger_calls_each_bound_callable_once:
  assumes "wf s"
  shows "invoked (TriggerEvent T a s)
           = invoked s @ map (\<lambda>b. Invoked (id_of T s) (fst b) a) (bound T s) \<and>
         bound T (TriggerEvent T a s) = bound T s \<and>
         pending T (TriggerEvent T a s)
           = pending T s @ concat (map (\<lambda>b. enqueued_for T (snd b) a) (bound T s)) \<and>
         ((\<forall>b\<in>set (bound T s). enqueued_for T (snd b) a = []) \<longrightarrow>
            pending T (TriggerEvent T a s) = pending T s)"
proof -
  let ?s1 = "snd (GetEventHandler T (received (Call_Trigger T) s))"
  let ?i = "id_of T s"
  have wf1: "wf ?s1"
    using assms by (simp add: GetEventHandler_wf)
  have id1: "eventID (statics ?s1) T = Some ?i"
    by (simp add: eventID_id_of)
  have b1: "bindings_at ?i ?s1 = bound T s"
    using assms by (simp add: GetEventHandler_obs wf_bound)
  have q1: "queue_at ?i ?s1 = pending T s"
    using assms by (simp add: GetEventHandler_obs wf_pending)
  have id2: "eventID (statics (TriggerEvent T a s)) T = Some ?i"
    unfolding TriggerEvent_unfold using id1 by (rule Signal_invoke_eventID)
  have inv: "invoked (TriggerEvent T a s)
           = invoked s @ map (\<lambda>b. Invoked ?i (fst b) a) (bound T s)"
    by (simp add: TriggerEvent_unfold Signal_invoke_fields b1)
  have "bound T (TriggerEvent T a s) = bindings_at ?i (TriggerEvent T a s)"
    using id2 by (simp add: bound_def)
  then have bnd: "bound T (TriggerEvent T a s) = bound T s"
    by (simp add: TriggerEvent_unfold Signal_invoke_fields b1)
  have "queue_at ?i (TriggerEvent T a s)
          = pending T s @ concat (map (\<lambda>b. enqueued_for T (snd b) a) (bound T s))"
    unfolding TriggerEvent_unfold
    using Signal_invoke_queue [OF wf1 id1, of ?i a] by (simp add: b1 q1)
  with id2 have pend: "pending T (TriggerEvent T a s)
          = pending T s @ concat (map (\<lambda>b. enqueued_for T (snd b) a) (bound T s))"
    by (simp add: pending_def)
  from inv bnd pend show ?thesis by simp
qed

text \<open>
  Two callables bound to type 0, one of which enqueues the event again for type 1; one
  event of type 0 pending. The trigger calls both once; the buffer of type 0 is as before.
\<close>

theorem trigger_calls_each_bound_callable_once_witness:
  "let s0 = run [Subscribe 0 quiet, Subscribe 0 forward, Enqueue 0 5] (bus_new registry_init zeros nulls)
   in wf s0 \<and>
      bound 0 s0 = [(0, quiet), (1, forward)] \<and>
      enqueued_for 0 quiet 9 = [] \<and> enqueued_for 0 forward 9 = [] \<and>
      invoked (TriggerEvent 0 9 s0) = [Invoked 0 0 9, Invoked 0 1 9] \<and>
      pending 0 s0 = [5] \<and>
      pending 0 (TriggerEvent 0 9 s0) = [5] \<and>
      pending 1 (TriggerEvent 0 9 s0) = [9]"
proof -
  define s0 :: "(nat, nat) state"
    where "s0 = run [Subscribe 0 quiet, Subscribe 0 forward, Enqueue 0 5] (bus_new registry_init zeros nulls)"
  have w: "wf s0"
    by (simp add: s0_def unfold_model wf_def reg_ok_def)
  have b: "bound 0 s0 = [(0, quiet), (1, forward)]"
    by (simp add: s0_def unfold_model)
  have e: "enqueued_for 0 quiet 9 = []" "enqueued_for 0 forward 9 = []"
    by (simp_all add: enqueued_for_def quiet_def forward_def)
  have i: "id_of 0 s0 = 0" and p: "pending 0 s0 = [5]" and n: "invoked s0 = []"
    by (simp_all add: s0_def unfold_model)
  have o: "pending 1 (TriggerEvent 0 9 s0) = [9]"
    by (simp add: s0_def unfold_model forward_def)
  from trigger_calls_each_bound_callable_once [OF w, of 0 9] w b e i p o n
  show ?thesis
    unfolding Let_def s0_def [symmetric] by simp
qed

section \<open>The loops over the pools, without iterators\<close>

lemma on_pool_guard:
  "(case pool_at i s of Some _ \<Rightarrow> on_pool i g s | None \<Rightarrow> s) = on_pool i g s"
  by (simp add: on_pool_def split: option.splits)

lemma flush_guard:
  "(case pool_at i s of Some _ \<Rightarrow> spec_flush i s | None \<Rightarrow> s)
     = spec_flush i s"
  by (simp add: spec_flush_def queue_at_def on_pool_def split: option.splits)

lemma ClearEventQueues_unfold:
  "ClearEventQueues s
     = fold (\<lambda>i. on_pool i EventPool_ClearEventQueue) [0..<length (mEventPools s)] (received Call_Clear s)"
  by (simp add: ClearEventQueues_def on_pool_guard)

lemma spec_dispatch_unfold:
  "spec_dispatch s
     = fold spec_flush [0..<length (mEventPools s)] (received Call_Dispatch s)"
  by (simp add: spec_dispatch_def flush_guard)

lemma clear_loop:
  "invoked (fold (\<lambda>i. on_pool i EventPool_ClearEventQueue) js s) = invoked s"
  "statics (fold (\<lambda>i. on_pool i EventPool_ClearEventQueue) js s) = statics s"
  "calls (fold (\<lambda>i. on_pool i EventPool_ClearEventQueue) js s) = calls s"
  "length (mEventPools (fold (\<lambda>i. on_pool i EventPool_ClearEventQueue) js s)) = length (mEventPools s)"
  "bindings_at j (fold (\<lambda>i. on_pool i EventPool_ClearEventQueue) js s) = bindings_at j s"
  "queue_at j (fold (\<lambda>i. on_pool i EventPool_ClearEventQueue) js s)
     = (if j \<in> set js then [] else queue_at j s)"
  "(pool_at j (fold (\<lambda>i. on_pool i EventPool_ClearEventQueue) js s) = None) = (pool_at j s = None)"
  by (induction js arbitrary: s) (simp_all add: clear_obs pool_at_on_pool)

lemma queue_at_beyond: "length (mEventPools s) \<le> j \<Longrightarrow> queue_at j s = []"
  by (simp add: queue_at_def pool_at_def)

lemma ClearEventQueues_obs:
  "invoked (ClearEventQueues s) = invoked s"
  "statics (ClearEventQueues s) = statics s"
  "calls (ClearEventQueues s) = calls s @ [Call_Clear]"
  "length (mEventPools (ClearEventQueues s)) = length (mEventPools s)"
  "bindings_at j (ClearEventQueues s) = bindings_at j s"
  "queue_at j (ClearEventQueues s) = []"
  "(pool_at j (ClearEventQueues s) = None) = (pool_at j s = None)"
  by (simp_all add: ClearEventQueues_unfold clear_loop queue_at_beyond)

text \<open>A dispatch with nothing pending calls nothing.\<close>

lemma flush_nothing_pending:
  "queue_at i s = [] \<Longrightarrow> spec_flush i s = on_pool i EventPool_ClearEventQueue s"
  by (simp add: spec_flush_def)

lemma dispatch_loop_nothing_pending:
  "\<forall>j. queue_at j s = [] \<Longrightarrow>
   fold spec_flush js s = fold (\<lambda>i. on_pool i EventPool_ClearEventQueue) js s"
  by (induction js arbitrary: s) (simp_all add: flush_nothing_pending clear_obs)

lemma spec_dispatch_nothing_pending:
  assumes "\<forall>j. queue_at j s = []"
  shows "invoked (spec_dispatch s) = invoked s"
    and "queue_at j (spec_dispatch s) = []"
    and "bindings_at j (spec_dispatch s) = bindings_at j s"
    and "statics (spec_dispatch s) = statics s"
proof -
  have "\<forall>j. queue_at j (received Call_Dispatch s) = []"
    using assms by simp
  then have eq: "spec_dispatch s
      = fold (\<lambda>i. on_pool i EventPool_ClearEventQueue) [0..<length (mEventPools s)] (received Call_Dispatch s)"
    unfolding spec_dispatch_unfold by (rule dispatch_loop_nothing_pending)
  show "invoked (spec_dispatch s) = invoked s"
    and "queue_at j (spec_dispatch s) = []"
    and "bindings_at j (spec_dispatch s) = bindings_at j s"
    and "statics (spec_dispatch s) = statics s"
    using assms by (simp_all add: eq clear_loop)
qed

lemma pending_EnqueueEvent: "wf s \<Longrightarrow> pending T (EnqueueEvent T a s) = pending T s @ [a]"
  using wf_pending [of s T]
  by (simp add: pending_def EnqueueEvent_fields eventID_id_of queue_at_EnqueueEvent)

lemma bound_EnqueueEvent: "wf s \<Longrightarrow> bound T (EnqueueEvent U a s) = bound T s"
proof (cases "T = U")
  case True
  assume "wf s"
  then have "bindings_at (id_of U s) s = bound U s" by (rule wf_bound)
  with True show ?thesis
    by (simp add: bound_def EnqueueEvent_fields eventID_id_of bindings_at_EnqueueEvent)
next
  case False
  then show ?thesis
    by (simp add: bound_def EnqueueEvent_fields eventID_GetEventId bindings_at_EnqueueEvent
        split: option.splits)
qed


lemma pending_enqueue_all: "wf s \<Longrightarrow> pending T (fold (EnqueueEvent T) as s) = pending T s @ as"
  by (induction as arbitrary: s) (simp_all add: wf_EnqueueEvent pending_EnqueueEvent)

lemma bound_enqueue_all: "wf s \<Longrightarrow> bound U (fold (EnqueueEvent T) as s) = bound U s"
  by (induction as arbitrary: s) (simp_all add: wf_EnqueueEvent bound_EnqueueEvent)

lemma invoked_enqueue_all: "invoked (fold (EnqueueEvent T) as s) = invoked s"
  by (induction as arbitrary: s) (simp_all add: EnqueueEvent_fields)

lemma pending_from_queues: "\<forall>j. queue_at j s = [] \<Longrightarrow> pending T s = []"
  by (simp add: pending_def split: option.splits)

lemma bound_from_bindings:
  "statics s' = statics s \<Longrightarrow> \<forall>j. bindings_at j s' = bindings_at j s \<Longrightarrow> bound T s' = bound T s"
  by (simp add: bound_def split: option.splits)

section \<open>The dispatch that the spec describes\<close>

lemma pool_of_deliveries: "x \<in> set (deliveries i bs es) \<Longrightarrow> pool_of x = i"
  by (auto simp: deliveries_def)


lemma invoked_sinceI: "invoked s' = invoked s @ X \<Longrightarrow> invoked_since s s' = X"
  by (simp add: invoked_since_def)


lemma call_silent:
  "f e = [] \<Longrightarrow> call_callable i k f e s = s\<lparr>invoked := invoked s @ [Invoked i k e]\<rparr>"
  by (simp add: call_callable_def)

lemma calls_silent:
  "\<forall>b\<in>set bs. snd b e = [] \<Longrightarrow>
   fold (\<lambda>(k, f). call_callable i k f e) bs s
     = s\<lparr>invoked := invoked s @ map (\<lambda>b. Invoked i (fst b) e) bs\<rparr>"
  by (induction bs arbitrary: s) (auto simp: call_silent)

lemma Signal_invoke_silent:
  "\<forall>b\<in>set (bindings_at i s). snd b e = [] \<Longrightarrow>
   Signal_invoke i e s = s\<lparr>invoked := invoked s @ map (\<lambda>b. Invoked i (fst b) e) (bindings_at i s)\<rparr>"
  by (simp add: Signal_invoke_def calls_silent)

lemma loop_silent:
  "\<forall>e\<in>set es. \<forall>b\<in>set (bindings_at i s). snd b e = [] \<Longrightarrow>
   fold (Signal_invoke i) es s = s\<lparr>invoked := invoked s @ deliveries i (bindings_at i s) es\<rparr>"
  by (induction es arbitrary: s) (simp_all add: Signal_invoke_silent deliveries_def)

lemma flush_silent:
  "silent s \<Longrightarrow>
   spec_flush i s
     = on_pool i EventPool_ClearEventQueue
         (s\<lparr>invoked := invoked s @ deliveries i (bindings_at i s) (queue_at i s)\<rparr>)"
  unfolding spec_flush_def
  by (subst loop_silent) (auto simp: silent_def)

lemma flush_silent_obs:
  assumes "silent s"
  shows "statics (spec_flush i s) = statics s"
    and "length (mEventPools (spec_flush i s)) = length (mEventPools s)"
    and "queue_at j (spec_flush i s) = (if j = i then [] else queue_at j s)"
    and "(pool_at j (spec_flush i s) = None) = (pool_at j s = None)"
  by (simp_all add: flush_silent [OF assms] clear_obs pool_at_on_pool)

lemma flush_silent_silent: "silent s \<Longrightarrow> silent (spec_flush i s)"
  unfolding silent_def
  by (auto simp: flush_silent_obs(3) [unfolded silent_def] flush_fields split: if_splits)


lemma dispatch_loop_bindings:
  "bindings_at j (fold spec_flush js s) = bindings_at j s"
  by (induction js arbitrary: s) (simp_all add: flush_fields)


section \<open>One type in the dispatch that the spec describes\<close>

lemma enqueued_for_Nil: "(enqueued_for T f e = []) = (T \<notin> fst ` set (f e))"
  by (auto simp: enqueued_for_def filter_empty_conv)

lemma others_loop:
  assumes "wf s" and "eventID (statics s) T = Some i" and "i \<notin> set js"
    and "\<forall>j. j \<noteq> i \<longrightarrow> (\<forall>b\<in>set (bindings_at j s). \<forall>e. enqueued_for T (snd b) e = [])"
  shows "wf (fold spec_flush js s) \<and>
         eventID (statics (fold spec_flush js s)) T = Some i \<and>
         queue_at i (fold spec_flush js s) = queue_at i s \<and>
         (\<exists>X. invoked (fold spec_flush js s) = invoked s @ X \<and>
              (\<forall>x\<in>set X. pool_of x \<noteq> i))"
  using assms
proof (induction js arbitrary: s)
  case Nil
  then show ?case by simp
next
  case (Cons j js)
  let ?s' = "spec_flush j s"
  from Cons.prems(3) have ji: "j \<noteq> i" and rest: "i \<notin> set js" by auto
  have w: "wf ?s'" using Cons.prems(1) by (rule flush_wf)
  have e: "eventID (statics ?s') T = Some i" using Cons.prems(2) by (rule flush_eventID)
  have h: "\<forall>j. j \<noteq> i \<longrightarrow> (\<forall>b\<in>set (bindings_at j ?s'). \<forall>e. enqueued_for T (snd b) e = [])"
    using Cons.prems(4) by (simp add: flush_fields)
  have "\<forall>b\<in>set (bindings_at j s). \<forall>e\<in>set (queue_at j s). T \<notin> fst ` set (snd b e)"
    using Cons.prems(4) ji by (simp add: enqueued_for_Nil)
  with Cons.prems(1,2) ji have q: "queue_at i ?s' = queue_at i s"
    by (intro flush_queue_other) auto
  from Cons.IH [OF w e rest h] obtain X where
    ih: "wf (fold spec_flush js ?s')"
      "eventID (statics (fold spec_flush js ?s')) T = Some i"
      "queue_at i (fold spec_flush js ?s') = queue_at i ?s'"
      "invoked (fold spec_flush js ?s') = invoked ?s' @ X"
      "\<forall>x\<in>set X. pool_of x \<noteq> i"
    by blast
  let ?Y = "deliveries j (bindings_at j s) (queue_at j s) @ X"
  have "invoked (fold spec_flush (j # js) s) = invoked s @ ?Y"
    by (simp add: ih(4) flush_fields)
  moreover have "\<forall>x\<in>set ?Y. pool_of x \<noteq> i"
    using ih(5) ji by (auto dest: pool_of_deliveries)
  ultimately show ?case
    using ih(1,2,3) q by auto
qed

lemma upt_split:
  assumes "i < n"
  shows "[0..<n] = [0..<i] @ i # [Suc i..<n]"
proof -
  have "[0..<n] = [0..<i] @ [i..<n]"
    using assms upt_add_eq_append [of 0 i "n - i"] by simp
  also have "[i..<n] = i # [Suc i..<n]"
    using assms by (rule upt_conv_Cons)
  finally show ?thesis .
qed

lemma filter_pool_deliveries:
  "filter (\<lambda>x. pool_of x = i) (deliveries i bs es) = deliveries i bs es"
  by (simp add: filter_id_conv pool_of_deliveries)

lemma filter_pool_others: "\<forall>x\<in>set X. pool_of x \<noteq> i \<Longrightarrow> filter (\<lambda>x. pool_of x = i) X = []"
  by (simp add: filter_empty_conv)

lemma dispatch_all_one_type:
  assumes w: "wf s" and e: "eventID (statics s) T = Some i" and p: "pool_at i s \<noteq> None"
    and h: "\<forall>j. j \<noteq> i \<longrightarrow> (\<forall>b\<in>set (bindings_at j s). \<forall>e. enqueued_for T (snd b) e = [])"
  shows "filter (\<lambda>x. pool_of x = i) (invoked_since s (spec_dispatch s))
           = deliveries i (bindings_at i s) (queue_at i s)"
    and "queue_at i (spec_dispatch s) = []"
    and "eventID (statics (spec_dispatch s)) T = Some i"
proof -
  let ?n = "length (mEventPools s)"
  let ?s0 = "received Call_Dispatch s"
  let ?sa = "fold spec_flush [0..<i] ?s0"
  let ?sb = "spec_flush i ?sa"
  let ?sc = "fold spec_flush [Suc i..<?n] ?sb"
  from p have "i < ?n" by (auto simp: pool_at_def split: if_splits)
  then have D: "spec_dispatch s = ?sc"
    unfolding spec_dispatch_unfold by (subst upt_split [of i ?n]) simp_all
  have h0: "\<forall>j. j \<noteq> i \<longrightarrow> (\<forall>b\<in>set (bindings_at j ?s0). \<forall>e. enqueued_for T (snd b) e = [])"
    using h by simp
  from others_loop [of ?s0 T i "[0..<i]"] w e h0 obtain X1 where
    a: "wf ?sa" "eventID (statics ?sa) T = Some i" "queue_at i ?sa = queue_at i s"
      "invoked ?sa = invoked s @ X1" "\<forall>x\<in>set X1. pool_of x \<noteq> i"
    by auto
  have b: "wf ?sb" "eventID (statics ?sb) T = Some i" "queue_at i ?sb = []"
    "invoked ?sb = invoked s @ X1 @ deliveries i (bindings_at i s) (queue_at i s)"
    using a by (simp_all add: flush_wf flush_eventID flush_fields dispatch_loop_bindings)
  have hb: "\<forall>j. j \<noteq> i \<longrightarrow> (\<forall>b\<in>set (bindings_at j ?sb). \<forall>e. enqueued_for T (snd b) e = [])"
    using h by (simp add: flush_fields dispatch_loop_bindings)
  from others_loop [of ?sb T i "[Suc i..<?n]"] b(1,2) hb obtain X2 where
    c: "eventID (statics ?sc) T = Some i" "queue_at i ?sc = queue_at i ?sb"
      "invoked ?sc = invoked ?sb @ X2" "\<forall>x\<in>set X2. pool_of x \<noteq> i"
    by auto
  have "invoked (spec_dispatch s)
          = invoked s @ (X1 @ deliveries i (bindings_at i s) (queue_at i s) @ X2)"
    by (simp add: D c(3) b(4))
  then have "invoked_since s (spec_dispatch s)
          = X1 @ deliveries i (bindings_at i s) (queue_at i s) @ X2"
    by (rule invoked_sinceI)
  then show "filter (\<lambda>x. pool_of x = i) (invoked_since s (spec_dispatch s))
           = deliveries i (bindings_at i s) (queue_at i s)"
    using a(5) c(4) by (simp add: filter_pool_deliveries filter_pool_others)
  show "queue_at i (spec_dispatch s) = []"
    by (simp add: D c(2) b(3))
  show "eventID (statics (spec_dispatch s)) T = Some i"
    by (simp add: D c(1))
qed






section \<open>Subscriptions and the separation of event types\<close>

lemma SubscribeToEvent_unfold:
  "snd (SubscribeToEvent T f s)
     = on_pool (id_of T s) (\<lambda>p. p\<lparr>mSignal := snd (Bind f (mSignal p))\<rparr>)
         (snd (GetEventHandler T (received (Call_Subscribe T) s)))"
  by (simp add: SubscribeToEvent_def split_beta GetEventHandler_fst pool_at_GetEventHandler
      on_pool_def)

lemma SubscribeToEvent_fields:
  "statics (snd (SubscribeToEvent T f s)) = snd (GetEventId T (statics s))"
  "invoked (snd (SubscribeToEvent T f s)) = invoked s"
  "calls (snd (SubscribeToEvent T f s)) = calls s @ [Call_Subscribe T]"
  "length (mEventPools (snd (SubscribeToEvent T f s))) = max (length (mEventPools s)) (id_of T s + 1)"
  by (simp_all add: SubscribeToEvent_unfold length_GetEventHandler)

lemma SubscribeToEvent_obs:
  "bindings_at j (snd (SubscribeToEvent T f s))
     = (if j = id_of T s
        then bindings_at j s @ [(case pool_at j s of Some p \<Rightarrow> next_slot (mSignal p) | None \<Rightarrow> 0, f)]
        else bindings_at j s)"
  "queue_at j (snd (SubscribeToEvent T f s)) = queue_at j s"
  "(pool_at j (snd (SubscribeToEvent T f s)) = None) = (j \<noteq> id_of T s \<and> pool_at j s = None)"
  by (auto simp: SubscribeToEvent_unfold bindings_at_def queue_at_def pool_at_on_pool
      pool_at_GetEventHandler Bind_def EventPool_new_def Signal_init_def split: option.splits)

lemma SubscribeToEvent_wf: "wf s \<Longrightarrow> wf (snd (SubscribeToEvent T f s))"
  by (simp add: SubscribeToEvent_unfold on_pool_wf GetEventHandler_wf)

lemma bound_SubscribeToEvent_other:
  assumes "wf s" and "T \<noteq> U"
  shows "bound T (snd (SubscribeToEvent U f s)) = bound T s"
proof (cases "eventID (statics s) T")
  case None
  with assms(2) show ?thesis
    by (simp add: bound_def SubscribeToEvent_fields eventID_GetEventId)
next
  case (Some i)
  with assms have "id_of U s \<noteq> i"
    using reg_ok_distinct_ids [of "statics s" U T i] by (simp add: wf_def id_of_def)
  with Some assms(2) show ?thesis
    by (simp add: bound_def SubscribeToEvent_fields eventID_GetEventId SubscribeToEvent_obs)
qed

lemma TriggerEvent_invoked:
  "invoked (TriggerEvent T a s)
     = invoked s @ map (\<lambda>b. Invoked (id_of T s) (fst b) a) (bindings_at (id_of T s) s)"
  by (simp add: TriggerEvent_unfold Signal_invoke_fields GetEventHandler_obs)

lemma pending_EnqueueEvent_other:
  "wf s \<Longrightarrow> T \<noteq> U \<Longrightarrow> pending U (EnqueueEvent T a s) = pending U s"
  by (auto simp: pending_def EnqueueEvent_fields eventID_GetEventId queue_at_EnqueueEvent_other
      split: option.splits)

section \<open>Which event types have a pool\<close>

lemma follows_refl: "pools_match s \<Longrightarrow> follows s s"
  by (simp add: follows_def)

lemma follows_trans: "follows s s' \<Longrightarrow> follows s' s'' \<Longrightarrow> follows s s''"
  by (auto simp: follows_def)

lemma follows_match: "follows s s' \<Longrightarrow> pools_match s'"
  by (simp add: follows_def)

lemma follows_fold:
  assumes "\<And>x s. pools_match s \<Longrightarrow> follows s (f x s)"
  shows "pools_match s \<Longrightarrow> follows s (fold f xs s)"
proof (induction xs arbitrary: s)
  case Nil
  then show ?case by (simp add: follows_refl)
next
  case (Cons x xs)
  from Cons.prems have 1: "follows s (f x s)" by (rule assms)
  then have "follows (f x s) (fold f xs (f x s))" by (intro Cons.IH follows_match)
  with 1 show ?case by (simp add: follows_trans)
qed

lemma pool_exists_GetEventHandler:
  assumes "wf s"
  shows "pool_exists U (snd (GetEventHandler T s)) = (U = T \<or> pool_exists U s)"
proof (cases "U = T")
  case True
  then show ?thesis
    by (simp add: pool_exists_def eventID_id_of pool_at_GetEventHandler)
next
  case False
  show ?thesis
  proof (cases "eventID (statics s) U")
    case None
    with False show ?thesis by (simp add: pool_exists_def eventID_GetEventId)
  next
    case (Some j)
    with assms False have "id_of T s \<noteq> j"
      using reg_ok_distinct_ids [of "statics s" T U j] by (simp add: wf_def id_of_def)
    with False Some show ?thesis
      by (simp add: pool_exists_def eventID_GetEventId pool_at_GetEventHandler)
  qed
qed

lemma pool_exists_on_pool: "pool_exists U (on_pool i f s) = pool_exists U s"
  by (simp add: pool_exists_def pool_at_on_pool split: option.splits)

lemma pool_exists_simps [simp]:
  "pool_exists U (received c s) = pool_exists U s"
  "pool_exists U (s\<lparr>invoked := v\<rparr>) = pool_exists U s"
  by (simp_all add: pool_exists_def split: option.splits)

lemma touched_simps [simp]:
  "touched f (received c s) = set (f c) \<union> touched f s"
  "touched f (on_pool i g s) = touched f s"
  "touched f (snd (GetEventHandler T s)) = touched f s"
  "touched f (s\<lparr>invoked := v\<rparr>) = touched f s"
  by (auto simp: touched_def)

lemma pools_match_invoked [simp]: "pools_match (s\<lparr>invoked := v\<rparr>) = pools_match s"
  by (simp add: pools_match_def)

lemma pools_match_on_pool [simp]: "pools_match (on_pool i f s) = pools_match s"
  by (simp add: pools_match_def on_pool_wf pool_exists_on_pool)

text \<open>Resolving the pool of \<open>T\<close> after the call was received: the step every operation
  for a type starts with.\<close>

lemma resolve_follows:
  assumes "pools_match s" and "T \<in> set (pool_ops c)" and "set (pool_ops c) \<subseteq> {T}"
  shows "follows s (snd (GetEventHandler T (received c s)))"
proof -
  from assms(1) have w: "wf (received c s)" by (simp add: pools_match_def)
  from assms(2,3) have "set (pool_ops c) = {T}" by auto
  with assms(1) show ?thesis
    by (auto simp: follows_def pools_match_def GetEventHandler_wf pool_exists_GetEventHandler [OF w])
qed

lemma EnqueueEvent_follows: "pools_match s \<Longrightarrow> follows s (EnqueueEvent T e s)"
  using resolve_follows [of s T "Call_Enqueue T"]
  by (simp add: EnqueueEvent_def split_beta follows_def)

lemma call_callable_follows: "pools_match s \<Longrightarrow> follows s (call_callable i k f e s)"
proof -
  assume "pools_match s"
  then have "pools_match (s\<lparr>invoked := invoked s @ [Invoked i k e]\<rparr>)" by simp
  then have "follows (s\<lparr>invoked := invoked s @ [Invoked i k e]\<rparr>) (call_callable i k f e s)"
    unfolding call_callable_def
    by (intro follows_fold) (simp add: split_beta EnqueueEvent_follows)
  then show ?thesis by (simp add: follows_def)
qed

lemma Signal_invoke_follows: "pools_match s \<Longrightarrow> follows s (Signal_invoke i e s)"
  unfolding Signal_invoke_def
  by (intro follows_fold) (simp_all add: split_beta call_callable_follows)

lemma flush_follows: "pools_match s \<Longrightarrow> follows s (spec_flush i s)"
proof -
  assume "pools_match s"
  then have "follows s (fold (Signal_invoke i) (queue_at i s) s)"
    by (intro follows_fold) (simp_all add: Signal_invoke_follows)
  then show ?thesis
    by (simp add: spec_flush_def follows_def)
qed

lemma received_follows:
  "pools_match s \<Longrightarrow> pool_ops c = [] \<Longrightarrow> follows s (received c s)"
  by (auto simp: follows_def pools_match_def)

lemma spec_dispatch_follows: "pools_match s \<Longrightarrow> follows s (spec_dispatch s)"
proof -
  assume m: "pools_match s"
  then have 1: "follows s (received Call_Dispatch s)" by (simp add: received_follows)
  then have "follows (received Call_Dispatch s) (spec_dispatch s)"
    unfolding spec_dispatch_unfold
    by (intro follows_fold follows_match) (simp_all add: flush_follows)
  with 1 show ?thesis by (rule follows_trans)
qed

lemma ClearEventQueues_follows: "pools_match s \<Longrightarrow> follows s (ClearEventQueues s)"
proof -
  assume m: "pools_match s"
  then have 1: "follows s (received Call_Clear s)" by (simp add: received_follows)
  then have "pools_match (received Call_Clear s)" by (rule follows_match)
  then have "follows (received Call_Clear s) (ClearEventQueues s)"
    unfolding ClearEventQueues_unfold
    by (rule follows_fold [rotated]) (simp add: follows_def)
  with 1 show ?thesis by (rule follows_trans)
qed

lemma TriggerEvent_follows: "pools_match s \<Longrightarrow> follows s (TriggerEvent T e s)"
proof -
  assume m: "pools_match s"
  then have 1: "follows s (snd (GetEventHandler T (received (Call_Trigger T) s)))"
    by (intro resolve_follows) simp_all
  then have "follows (snd (GetEventHandler T (received (Call_Trigger T) s))) (TriggerEvent T e s)"
    unfolding TriggerEvent_unfold by (intro Signal_invoke_follows follows_match)
  with 1 show ?thesis by (rule follows_trans)
qed

lemma SubscribeToEvent_follows: "pools_match s \<Longrightarrow> follows s (snd (SubscribeToEvent T f s))"
  using resolve_follows [of s T "Call_Subscribe T"]
  by (simp add: SubscribeToEvent_unfold follows_def)

lemma UnsubscribeFromEvent_follows: "pools_match s \<Longrightarrow> follows s (UnsubscribeFromEvent c s)"
  using received_follows [of s Call_Unsubscribe]
  by (simp add: UnsubscribeFromEvent_def follows_def)

lemma ClearEventQueues_sel_unfold:
  "ClearEventQueues_sel Ts s
     = fold (\<lambda>T s'. on_pool (id_of T s') EventPool_ClearEventQueue (snd (GetEventHandler T s')))
         Ts (received (Call_Clear_sel Ts) s)"
  by (simp add: ClearEventQueues_sel_def split_beta GetEventHandler_fst)

lemma clear_sel_loop:
  "wf s \<Longrightarrow>
   wf (fold (\<lambda>T s'. on_pool (id_of T s') EventPool_ClearEventQueue (snd (GetEventHandler T s'))) Ts s) \<and>
   calls (fold (\<lambda>T s'. on_pool (id_of T s') EventPool_ClearEventQueue (snd (GetEventHandler T s'))) Ts s)
     = calls s \<and>
   (\<forall>U. pool_exists U
          (fold (\<lambda>T s'. on_pool (id_of T s') EventPool_ClearEventQueue (snd (GetEventHandler T s'))) Ts s)
        = (U \<in> set Ts \<or> pool_exists U s))"
proof (induction Ts arbitrary: s)
  case Nil
  then show ?case by simp
next
  case (Cons T Ts)
  let ?s' = "on_pool (id_of T s) EventPool_ClearEventQueue (snd (GetEventHandler T s))"
  have w: "wf ?s'"
    using Cons.prems by (simp add: on_pool_wf GetEventHandler_wf)
  have "pool_exists U ?s' = (U = T \<or> pool_exists U s)" for U
    using Cons.prems by (simp add: pool_exists_on_pool pool_exists_GetEventHandler)
  with Cons.IH [OF w] show ?case
    by auto
qed

lemma ClearEventQueues_sel_follows: "pools_match s \<Longrightarrow> follows s (ClearEventQueues_sel Ts s)"
proof -
  assume m: "pools_match s"
  then have "wf (received (Call_Clear_sel Ts) s)" by (simp add: pools_match_def)
  from clear_sel_loop [OF this, of Ts] m show ?thesis
    by (auto simp: ClearEventQueues_sel_unfold follows_def pools_match_def touched_def)
qed

section \<open>The loops of the code\<close>

lemma reads_update_obs [simp]:
  "pool_at j (s\<lparr>reads := v\<rparr>) = pool_at j s"
  "bindings_at j (s\<lparr>reads := v\<rparr>) = bindings_at j s"
  "queue_at j (s\<lparr>reads := v\<rparr>) = queue_at j s"
  "wf (s\<lparr>reads := v\<rparr>) = wf s"
  "pool_exists T (s\<lparr>reads := v\<rparr>) = pool_exists T s"
  "touched f (s\<lparr>reads := v\<rparr>) = touched f s"
  "pools_match (s\<lparr>reads := v\<rparr>) = pools_match s"
  "silent (s\<lparr>reads := v\<rparr>) = silent s"
  by (simp_all add: pool_at_def bindings_at_def queue_at_def wf_def pool_exists_def touched_def
      pools_match_def silent_def split: option.splits)

text \<open>
  Whatever a flush does, it does by enqueues, entries in the log of invocations, reads
  of released storage and the clear at its end: a property that these steps keep is
  kept by the flush, and by the dispatch of all pools.
\<close>

lemma call_callable_keeps:
  assumes enq: "\<And>T x s. P s \<Longrightarrow> P (EnqueueEvent T x s)"
    and log: "\<And>v s. P s \<Longrightarrow> P (s\<lparr>invoked := v\<rparr>)"
    and "P s"
  shows "P (call_callable i k f e s)"
proof -
  have "P s \<Longrightarrow> P (fold (\<lambda>(T, x). EnqueueEvent T x) xs s)" for xs s
    by (induction xs arbitrary: s) (auto intro: enq)
  with assms(3) show ?thesis
    unfolding call_callable_def by (blast intro: log)
qed

lemma Signal_invoke_keeps:
  assumes enq: "\<And>T x s. P s \<Longrightarrow> P (EnqueueEvent T x s)"
    and log: "\<And>v s. P s \<Longrightarrow> P (s\<lparr>invoked := v\<rparr>)"
    and "P s"
  shows "P (Signal_invoke i e s)"
proof -
  have "P s \<Longrightarrow> P (fold (\<lambda>(k, f). call_callable i k f e) bs s)" for bs s
  proof (induction bs arbitrary: s)
    case Nil
    then show ?case by simp
  next
    case (Cons b bs)
    obtain k f where b: "b = (k, f)" by (cases b)
    have "P (call_callable i k f e s)"
      using enq log Cons.prems by (rule call_callable_keeps)
    then show ?case
      by (simp add: b Cons.IH)
  qed
  with assms(3) show ?thesis
    by (simp add: Signal_invoke_def)
qed

lemma stale_events_keeps:
  assumes enq: "\<And>T x s. P s \<Longrightarrow> P (EnqueueEvent T x s)"
    and log: "\<And>v s. P s \<Longrightarrow> P (s\<lparr>invoked := v\<rparr>)"
    and rd: "\<And>v s. P s \<Longrightarrow> P (s\<lparr>reads := v\<rparr>)"
    and "P s"
  shows "P (stale_events i m s)"
  using assms(4)
proof (induction m arbitrary: s)
  case 0
  then show ?case by simp
next
  case (Suc m)
  from Suc.prems have 1: "P (s\<lparr>reads := reads s + 1\<rparr>)" by (rule rd)
  have "P (Signal_invoke i (freed_event s (reads s)) (s\<lparr>reads := reads s + 1\<rparr>))"
    using enq log 1 by (rule Signal_invoke_keeps)
  then show ?case
    by (simp add: stale_event_def Suc.IH)
qed

lemma walk_events_keeps:
  assumes enq: "\<And>T x s. P s \<Longrightarrow> P (EnqueueEvent T x s)"
    and log: "\<And>v s. P s \<Longrightarrow> P (s\<lparr>invoked := v\<rparr>)"
    and rd: "\<And>v s. P s \<Longrightarrow> P (s\<lparr>reads := v\<rparr>)"
    and "P s"
  shows "P (walk_events i k m s)"
  using assms(4)
proof (induction m arbitrary: k s)
  case 0
  then show ?case by simp
next
  case (Suc m)
  have 1: "P (Signal_invoke i (queue_at i s ! k) s)"
    using enq log Suc.prems by (rule Signal_invoke_keeps)
  have 2: "P (stale_events i m (Signal_invoke i (queue_at i s ! k) s))"
    using enq log rd 1 by (rule stale_events_keeps)
  from 1 have 3: "P (walk_events i (Suc k) m (Signal_invoke i (queue_at i s ! k) s))"
    by (rule Suc.IH)
  from Suc.prems 2 3 show ?case
    by (simp add: Let_def)
qed

lemma flush_keeps:
  assumes enq: "\<And>T x s. P s \<Longrightarrow> P (EnqueueEvent T x s)"
    and log: "\<And>v s. P s \<Longrightarrow> P (s\<lparr>invoked := v\<rparr>)"
    and rd: "\<And>v s. P s \<Longrightarrow> P (s\<lparr>reads := v\<rparr>)"
    and clr: "\<And>i s. P s \<Longrightarrow> P (on_pool i EventPool_ClearEventQueue s)"
    and "P s"
  shows "P (EventPool_DispatchQueuedEvents i s)"
proof -
  have "P (walk_events i 0 (length (queue_at i s)) s)"
    using enq log rd assms(5) by (rule walk_events_keeps)
  then show ?thesis
    unfolding EventPool_DispatchQueuedEvents_def by (rule clr)
qed

lemma flush_slot_keeps:
  assumes enq: "\<And>T x s. P s \<Longrightarrow> P (EnqueueEvent T x s)"
    and log: "\<And>v s. P s \<Longrightarrow> P (s\<lparr>invoked := v\<rparr>)"
    and rd: "\<And>v s. P s \<Longrightarrow> P (s\<lparr>reads := v\<rparr>)"
    and clr: "\<And>i s. P s \<Longrightarrow> P (on_pool i EventPool_ClearEventQueue s)"
    and "P s"
  shows "P (flush_slot k s)"
proof -
  have "P (EventPool_DispatchQueuedEvents k s)"
    using enq log rd clr assms(5) by (rule flush_keeps)
  with assms(5) show ?thesis
    by (simp add: flush_slot_def split: option.splits)
qed

lemma stale_slots_keeps:
  assumes enq: "\<And>T x s. P s \<Longrightarrow> P (EnqueueEvent T x s)"
    and log: "\<And>v s. P s \<Longrightarrow> P (s\<lparr>invoked := v\<rparr>)"
    and rd: "\<And>v s. P s \<Longrightarrow> P (s\<lparr>reads := v\<rparr>)"
    and clr: "\<And>i s. P s \<Longrightarrow> P (on_pool i EventPool_ClearEventQueue s)"
    and "P s"
  shows "P (stale_slots k m s)"
  using assms(5)
proof (induction m arbitrary: k s)
  case 0
  then show ?case by simp
next
  case (Suc m)
  from Suc.prems have 1: "P (s\<lparr>reads := reads s + 1\<rparr>)" by (rule rd)
  have 2: "P (flush_slot k (s\<lparr>reads := reads s + 1\<rparr>))"
    using enq log rd clr 1 by (rule flush_slot_keeps)
  from 1 2 show ?case
    by (simp add: stale_slot_def Suc.IH)
qed

lemma walk_slots_keeps:
  assumes enq: "\<And>T x s. P s \<Longrightarrow> P (EnqueueEvent T x s)"
    and log: "\<And>v s. P s \<Longrightarrow> P (s\<lparr>invoked := v\<rparr>)"
    and rd: "\<And>v s. P s \<Longrightarrow> P (s\<lparr>reads := v\<rparr>)"
    and clr: "\<And>i s. P s \<Longrightarrow> P (on_pool i EventPool_ClearEventQueue s)"
    and "P s"
  shows "P (walk_slots k m s)"
  using assms(5)
proof (induction m arbitrary: k s)
  case 0
  then show ?case by simp
next
  case (Suc m)
  have 1: "P (flush_slot k s)"
    using enq log rd clr Suc.prems by (rule flush_slot_keeps)
  have 2: "P (stale_slots (Suc k) m (flush_slot k s))"
    using enq log rd clr 1 by (rule stale_slots_keeps)
  from 1 have 3: "P (walk_slots (Suc k) m (flush_slot k s))"
    by (rule Suc.IH)
  from 2 3 show ?case
    by (simp add: Let_def)
qed

lemma dispatch_keeps:
  assumes enq: "\<And>T x s. P s \<Longrightarrow> P (EnqueueEvent T x s)"
    and log: "\<And>v s. P s \<Longrightarrow> P (s\<lparr>invoked := v\<rparr>)"
    and rd: "\<And>v s. P s \<Longrightarrow> P (s\<lparr>reads := v\<rparr>)"
    and clr: "\<And>i s. P s \<Longrightarrow> P (on_pool i EventPool_ClearEventQueue s)"
    and "P (received Call_Dispatch s)"
  shows "P (DispatchQueuedEvents s)"
  unfolding DispatchQueuedEvents_def
  using enq log rd clr assms(5) by (rule walk_slots_keeps)

subsection \<open>What the code's flush keeps\<close>

lemma code_flush_wf: "wf s \<Longrightarrow> wf (EventPool_DispatchQueuedEvents i s)"
  by (rule flush_keeps [where P = wf]) (simp_all add: wf_EnqueueEvent on_pool_wf)

lemma code_flush_eventID:
  "eventID (statics s) U = Some j \<Longrightarrow>
   eventID (statics (EventPool_DispatchQueuedEvents i s)) U = Some j"
  by (rule flush_keeps [where P = "\<lambda>s. eventID (statics s) U = Some j"])
     (simp_all add: eventID_EnqueueEvent)

lemma code_flush_exists:
  "pool_at j s \<noteq> None \<Longrightarrow> pool_at j (EventPool_DispatchQueuedEvents i s) \<noteq> None"
  by (rule flush_keeps [where P = "\<lambda>s. pool_at j s \<noteq> None"])
     (simp_all add: exists_EnqueueEvent on_pool_exists del: not_None_eq)

lemma code_flush_bindings_eq:
  "bindings_at j s = bs \<Longrightarrow> bindings_at j (EventPool_DispatchQueuedEvents i s) = bs"
  by (rule flush_keeps [where P = "\<lambda>s. bindings_at j s = bs"])
     (simp_all add: bindings_at_EnqueueEvent clear_obs)

lemma code_flush_bindings:
  "bindings_at j (EventPool_DispatchQueuedEvents i s) = bindings_at j s"
  by (rule code_flush_bindings_eq) (rule refl)

lemma code_flush_queue: "queue_at i (EventPool_DispatchQueuedEvents i s) = []"
  by (simp add: EventPool_DispatchQueuedEvents_def clear_obs)

lemma code_flush_guard: "flush_slot i s = EventPool_DispatchQueuedEvents i s"
  by (simp add: flush_slot_def EventPool_DispatchQueuedEvents_def queue_at_def on_pool_def
      split: option.splits)



lemma calls_through_refl: "calls_through i s s"
  by (simp add: calls_through_def)

lemma calls_through_trans:
  "calls_through i s s' \<Longrightarrow> calls_through i s' s'' \<Longrightarrow> calls_through i s s''"
  by (fastforce simp: calls_through_def)

lemma Signal_invoke_through: "calls_through i s (Signal_invoke i e s)"
  by (auto simp: calls_through_def Signal_invoke_fields)

lemma calls_through_reads: "calls_through i s s' \<Longrightarrow> calls_through i (s\<lparr>reads := v\<rparr>) s'"
  by (simp add: calls_through_def)

lemma stale_events_through: "calls_through i s (stale_events i m s)"
proof (induction m arbitrary: s)
  case 0
  show ?case by (simp add: calls_through_refl)
next
  case (Suc m)
  let ?s1 = "s\<lparr>reads := reads s + 1\<rparr>"
  let ?s2 = "Signal_invoke i (freed_event s (reads s)) ?s1"
  have "calls_through i ?s1 ?s2" by (rule Signal_invoke_through)
  then have "calls_through i s ?s2" by (simp add: calls_through_def)
  moreover have "calls_through i ?s2 (stale_events i m ?s2)" by (rule Suc.IH)
  ultimately show ?case
    by (simp add: stale_event_def calls_through_trans)
qed

lemma walk_events_through: "calls_through i s (walk_events i k m s)"
proof (induction m arbitrary: k s)
  case 0
  show ?case by (simp add: calls_through_refl)
next
  case (Suc m)
  let ?s' = "Signal_invoke i (queue_at i s ! k) s"
  have 1: "calls_through i s ?s'" by (rule Signal_invoke_through)
  have "calls_through i ?s' (stale_events i m ?s')" by (rule stale_events_through)
  with 1 have 2: "calls_through i s (stale_events i m ?s')" by (rule calls_through_trans)
  have "calls_through i ?s' (walk_events i (Suc k) m ?s')" by (rule Suc.IH)
  with 1 have 3: "calls_through i s (walk_events i (Suc k) m ?s')" by (rule calls_through_trans)
  from 2 3 show ?case
    by (simp add: Let_def calls_through_refl)
qed

lemma code_flush_through: "calls_through i s (EventPool_DispatchQueuedEvents i s)"
  using walk_events_through [of i s 0 "length (queue_at i s)"]
  by (simp add: EventPool_DispatchQueuedEvents_def calls_through_def)

subsection \<open>When the loops of the code do what the spec describes\<close>

lemma walk_events_fold:
  assumes step: "\<And>s e. R s \<Longrightarrow> e \<in> set (queue_at i s) \<Longrightarrow>
      R (Signal_invoke i e s) \<and> queue_at i (Signal_invoke i e s) = queue_at i s"
    and "R s" and "k + m \<le> length (queue_at i s)"
  shows "walk_events i k m s = fold (Signal_invoke i) (take m (drop k (queue_at i s))) s"
  using assms(2,3)
proof (induction m arbitrary: k s)
  case 0
  show ?case by simp
next
  case (Suc m)
  let ?q = "queue_at i s"
  let ?s' = "Signal_invoke i (?q ! k) s"
  from Suc.prems(2) have k: "k < length ?q" by simp
  then have "?q ! k \<in> set ?q" by simp
  with Suc.prems(1) have r: "R ?s'" and q: "queue_at i ?s' = ?q"
    using step by blast+
  from Suc.prems(2) q have "Suc k + m \<le> length (queue_at i ?s')" by simp
  with r have "walk_events i (Suc k) m ?s'
      = fold (Signal_invoke i) (take m (drop (Suc k) (queue_at i ?s'))) ?s'"
    by (rule Suc.IH)
  moreover have "take (Suc m) (drop k ?q) = ?q ! k # take m (drop (Suc k) ?q)"
    using k by (simp add: Cons_nth_drop_Suc [symmetric])
  ultimately show ?case
    using k q by (simp add: Let_def)
qed

lemma flush_refines:
  assumes step: "\<And>s e. R s \<Longrightarrow> e \<in> set (queue_at i s) \<Longrightarrow>
      R (Signal_invoke i e s) \<and> queue_at i (Signal_invoke i e s) = queue_at i s"
    and "R s"
  shows "EventPool_DispatchQueuedEvents i s = spec_flush i s"
proof -
  have le: "0 + length (queue_at i s) \<le> length (queue_at i s)"
    by simp
  have "walk_events i 0 (length (queue_at i s)) s
      = fold (Signal_invoke i) (take (length (queue_at i s)) (drop 0 (queue_at i s))) s"
    using step assms(2) le by (rule walk_events_fold)
  then show ?thesis
    by (simp add: EventPool_DispatchQueuedEvents_def spec_flush_def)
qed

lemma walk_slots_fold:
  assumes step: "\<And>s k. R s \<Longrightarrow>
      R (flush_slot k s) \<and> length (mEventPools (flush_slot k s)) = length (mEventPools s)"
    and "R s"
  shows "walk_slots k m s = fold flush_slot [k..<k + m] s"
  using assms(2)
proof (induction m arbitrary: k s)
  case 0
  show ?case by simp
next
  case (Suc m)
  from Suc.prems have r: "R (flush_slot k s)"
    and l: "length (mEventPools (flush_slot k s)) = length (mEventPools s)"
    using step by blast+
  from r have "walk_slots (Suc k) m (flush_slot k s) = fold flush_slot [Suc k..<Suc k + m] (flush_slot k s)"
    by (rule Suc.IH)
  moreover have "[k..<k + Suc m] = k # [Suc k..<Suc k + m]"
    by (simp add: upt_conv_Cons)
  ultimately show ?case
    using l by (simp add: Let_def del: upt_Suc)
qed

text \<open>A state in which no callable enqueues on a pending event.\<close>

lemma silent_invoked [simp]: "silent (s\<lparr>invoked := v\<rparr>) = silent s"
  by (simp add: silent_def)

lemma silent_step:
  "silent s \<Longrightarrow> e \<in> set (queue_at i s) \<Longrightarrow>
   silent (Signal_invoke i e s) \<and> queue_at i (Signal_invoke i e s) = queue_at i s"
  by (subst (1 2) Signal_invoke_silent) (auto simp: silent_def)

lemma silent_flush: "silent s \<Longrightarrow> EventPool_DispatchQueuedEvents i s = spec_flush i s"
  by (rule flush_refines [where R = silent]) (simp_all add: silent_step)

lemma silent_slot:
  "silent s \<Longrightarrow>
   silent (flush_slot k s) \<and> length (mEventPools (flush_slot k s)) = length (mEventPools s)"
  by (simp add: code_flush_guard silent_flush flush_silent_silent flush_silent_obs)

lemma silent_received [simp]: "silent (received c s) = silent s"
  by (simp add: silent_def)

lemma silent_loop:
  "silent s \<Longrightarrow> fold flush_slot js s = fold spec_flush js s"
proof (induction js arbitrary: s)
  case Nil
  show ?case by simp
next
  case (Cons j js)
  from Cons.prems have "silent (spec_flush j s)" by (rule flush_silent_silent)
  then have "fold flush_slot js (spec_flush j s) = fold spec_flush js (spec_flush j s)"
    by (rule Cons.IH)
  moreover from Cons.prems have "flush_slot j s = spec_flush j s"
    by (simp add: code_flush_guard silent_flush)
  ultimately show ?case by simp
qed

lemma silent_dispatch: "silent s \<Longrightarrow> DispatchQueuedEvents s = spec_dispatch s"
proof -
  assume s: "silent s"
  let ?s = "received Call_Dispatch s"
  let ?n = "length (mEventPools s)"
  from s have r: "silent ?s" by simp
  have "walk_slots 0 ?n ?s = fold flush_slot [0..<0 + ?n] ?s"
    using silent_slot r by (rule walk_slots_fold)
  also have "\<dots> = fold spec_flush [0..<?n] ?s"
    using r by (simp add: silent_loop)
  finally show ?thesis
    by (simp add: DispatchQueuedEvents_def spec_dispatch_unfold)
qed

subsection \<open>A pass in which no vector grows\<close>

lemma same_frame_refl: "same_frame s s"
  by (simp add: same_frame_def)

lemma same_frame_trans: "same_frame s s' \<Longrightarrow> same_frame s' s'' \<Longrightarrow> same_frame s s''"
  by (simp add: same_frame_def)

lemma same_frame_safe: "same_frame s s' \<Longrightarrow> safe_pass s \<Longrightarrow> safe_pass s'"
  by (simp add: same_frame_def safe_pass_def)

lemma same_frame_simps [simp]:
  "same_frame s (s'\<lparr>invoked := v\<rparr>) = same_frame s s'"
  "same_frame s (received c s') = same_frame s s'"
  "same_frame s (on_pool i EventPool_ClearEventQueue s') = same_frame s s'"
  by (simp_all add: same_frame_def clear_obs)

lemma EnqueueEvent_frame:
  assumes "eventID (statics s) T = Some k" and "k < length (mEventPools s)"
  shows "same_frame s (EnqueueEvent T e s)"
    and "k \<noteq> i \<Longrightarrow> queue_at i (EnqueueEvent T e s) = queue_at i s"
  using assms
  by (simp_all add: same_frame_def EnqueueEvent_fields GetEventId_Some id_of_Some
      bindings_at_EnqueueEvent queue_at_EnqueueEvent)

lemma enqueues_frame:
  "\<forall>t\<in>fst ` set xs. \<exists>k. eventID (statics s) t = Some k \<and> k < length (mEventPools s) \<and> k \<noteq> i \<Longrightarrow>
   same_frame s (fold (\<lambda>(T, x). EnqueueEvent T x) xs s) \<and>
   queue_at i (fold (\<lambda>(T, x). EnqueueEvent T x) xs s) = queue_at i s"
proof (induction xs arbitrary: s)
  case Nil
  show ?case by (simp add: same_frame_refl)
next
  case (Cons a xs)
  obtain T x where a: "a = (T, x)" by (cases a)
  from Cons.prems a obtain k where k: "eventID (statics s) T = Some k"
    "k < length (mEventPools s)" "k \<noteq> i"
    by auto
  let ?s' = "EnqueueEvent T x s"
  from k have f: "same_frame s ?s'" and q: "queue_at i ?s' = queue_at i s"
    by (simp_all add: EnqueueEvent_frame)
  from Cons.prems f
  have "\<forall>t\<in>fst ` set xs. \<exists>k. eventID (statics ?s') t = Some k \<and> k < length (mEventPools ?s') \<and> k \<noteq> i"
    by (simp add: same_frame_def)
  then have "same_frame ?s' (fold (\<lambda>(T, x). EnqueueEvent T x) xs ?s') \<and>
      queue_at i (fold (\<lambda>(T, x). EnqueueEvent T x) xs ?s') = queue_at i ?s'"
    by (rule Cons.IH)
  with f q show ?case
    by (auto simp: a intro: same_frame_trans)
qed

lemma call_callable_frame:
  "\<forall>t\<in>fst ` set (f e). \<exists>k. eventID (statics s) t = Some k \<and> k < length (mEventPools s) \<and> k \<noteq> i \<Longrightarrow>
   same_frame s (call_callable i k f e s) \<and> queue_at i (call_callable i k f e s) = queue_at i s"
  using enqueues_frame [of "f e" "s\<lparr>invoked := invoked s @ [Invoked i k e]\<rparr>" i]
  by (simp add: call_callable_def same_frame_def)

lemma calls_frame:
  "\<forall>b\<in>set bs. \<forall>t\<in>fst ` set (snd b e).
      \<exists>k. eventID (statics s) t = Some k \<and> k < length (mEventPools s) \<and> k \<noteq> i \<Longrightarrow>
   same_frame s (fold (\<lambda>(k, f). call_callable i k f e) bs s) \<and>
   queue_at i (fold (\<lambda>(k, f). call_callable i k f e) bs s) = queue_at i s"
proof (induction bs arbitrary: s)
  case Nil
  show ?case by (simp add: same_frame_refl)
next
  case (Cons b bs)
  obtain k f where b: "b = (k, f)" by (cases b)
  let ?s' = "call_callable i k f e s"
  from Cons.prems b
  have "\<forall>t\<in>fst ` set (f e). \<exists>k. eventID (statics s) t = Some k \<and> k < length (mEventPools s) \<and> k \<noteq> i"
    by simp
  then have f: "same_frame s ?s'" and q: "queue_at i ?s' = queue_at i s"
    using call_callable_frame [of f e s i k] by simp_all
  from Cons.prems f
  have "\<forall>b\<in>set bs. \<forall>t\<in>fst ` set (snd b e).
      \<exists>k. eventID (statics ?s') t = Some k \<and> k < length (mEventPools ?s') \<and> k \<noteq> i"
    by (simp add: same_frame_def)
  then have "same_frame ?s' (fold (\<lambda>(k, f). call_callable i k f e) bs ?s') \<and>
      queue_at i (fold (\<lambda>(k, f). call_callable i k f e) bs ?s') = queue_at i ?s'"
    by (rule Cons.IH)
  with f q show ?case
    by (auto simp: b intro: same_frame_trans)
qed

lemma Signal_invoke_frame:
  assumes "safe_pass s"
  shows "same_frame s (Signal_invoke i e s)"
    and "queue_at i (Signal_invoke i e s) = queue_at i s"
proof -
  from assms have "\<forall>b\<in>set (bindings_at i s). \<forall>t\<in>fst ` set (snd b e).
      \<exists>k. eventID (statics s) t = Some k \<and> k < length (mEventPools s) \<and> k \<noteq> i"
    unfolding safe_pass_def by blast
  then have "same_frame s (Signal_invoke i e s) \<and> queue_at i (Signal_invoke i e s) = queue_at i s"
    unfolding Signal_invoke_def by (rule calls_frame)
  then show "same_frame s (Signal_invoke i e s)"
    and "queue_at i (Signal_invoke i e s) = queue_at i s"
    by simp_all
qed

lemma safe_step:
  "safe_pass s \<Longrightarrow> e \<in> set (queue_at i s) \<Longrightarrow>
   safe_pass (Signal_invoke i e s) \<and> queue_at i (Signal_invoke i e s) = queue_at i s"
  using same_frame_safe [OF Signal_invoke_frame(1)] by (simp add: Signal_invoke_frame(2))

lemma safe_flush: "safe_pass s \<Longrightarrow> EventPool_DispatchQueuedEvents i s = spec_flush i s"
  by (rule flush_refines [where R = safe_pass]) (simp_all add: safe_step)

lemma loop_frame: "safe_pass s \<Longrightarrow> same_frame s (fold (Signal_invoke i) es s)"
proof (induction es arbitrary: s)
  case Nil
  show ?case by (simp add: same_frame_refl)
next
  case (Cons e es)
  from Cons.prems have f: "same_frame s (Signal_invoke i e s)"
    by (rule Signal_invoke_frame)
  with Cons.prems have "safe_pass (Signal_invoke i e s)"
    by (rule same_frame_safe [rotated])
  then have "same_frame (Signal_invoke i e s) (fold (Signal_invoke i) es (Signal_invoke i e s))"
    by (rule Cons.IH)
  with f show ?case
    by (auto intro: same_frame_trans)
qed

lemma flush_frame: "safe_pass s \<Longrightarrow> same_frame s (spec_flush i s)"
  by (simp add: spec_flush_def loop_frame)

lemma safe_slot:
  "safe_pass s \<Longrightarrow>
   safe_pass (flush_slot k s) \<and> length (mEventPools (flush_slot k s)) = length (mEventPools s)"
  using flush_frame [of s k] same_frame_safe [of s "spec_flush k s"]
  by (simp add: code_flush_guard safe_flush same_frame_def)

lemma safe_loop:
  "safe_pass s \<Longrightarrow> fold flush_slot js s = fold spec_flush js s"
proof (induction js arbitrary: s)
  case Nil
  show ?case by simp
next
  case (Cons j js)
  from Cons.prems have "same_frame s (spec_flush j s)"
    by (rule flush_frame)
  with Cons.prems have "safe_pass (spec_flush j s)"
    by (rule same_frame_safe [rotated])
  then have "fold flush_slot js (spec_flush j s) = fold spec_flush js (spec_flush j s)"
    by (rule Cons.IH)
  moreover from Cons.prems have "flush_slot j s = spec_flush j s"
    by (simp add: code_flush_guard safe_flush)
  ultimately show ?case by simp
qed

lemma safe_received [simp]: "safe_pass (received c s) = safe_pass s"
  by (simp add: safe_pass_def)

lemma safe_dispatch: "safe_pass s \<Longrightarrow> DispatchQueuedEvents s = spec_dispatch s"
proof -
  assume s: "safe_pass s"
  let ?s = "received Call_Dispatch s"
  let ?n = "length (mEventPools s)"
  from s have r: "safe_pass ?s" by simp
  have "walk_slots 0 ?n ?s = fold flush_slot [0..<0 + ?n] ?s"
    using safe_slot r by (rule walk_slots_fold)
  also have "\<dots> = fold spec_flush [0..<?n] ?s"
    using r by (simp add: safe_loop)
  finally show ?thesis
    by (simp add: DispatchQueuedEvents_def spec_dispatch_unfold)
qed

lemma safe_enqueue:
  assumes "safe_pass s"
  shows "safe_pass (EnqueueEvent T a s)"
  unfolding safe_pass_def
proof (intro allI ballI)
  fix j b e t
  assume "b \<in> set (bindings_at j (EnqueueEvent T a s))" and t: "t \<in> fst ` set (snd b e)"
  then have "b \<in> set (bindings_at j s)"
    by (simp add: bindings_at_EnqueueEvent)
  with assms t obtain k where k: "eventID (statics s) t = Some k"
    "k < length (mEventPools s)" "k \<noteq> j"
    unfolding safe_pass_def by blast
  from k(1) have "eventID (statics (EnqueueEvent T a s)) t = Some k"
    by (rule eventID_EnqueueEvent)
  moreover from k(2) have "k < length (mEventPools (EnqueueEvent T a s))"
    by (simp add: EnqueueEvent_fields)
  ultimately show "\<exists>k. eventID (statics (EnqueueEvent T a s)) t = Some k \<and>
      k < length (mEventPools (EnqueueEvent T a s)) \<and> k \<noteq> j"
    using k(3) by blast
qed


subsection \<open>The pools and the calls the bus received, through the loops of the code\<close>

lemma DispatchQueuedEvents_follows: "pools_match s \<Longrightarrow> follows s (DispatchQueuedEvents s)"
proof (rule dispatch_keeps [where P = "follows s"])
  fix T x s'
  assume "follows s s'"
  moreover from this have "follows s' (EnqueueEvent T x s')"
    by (intro EnqueueEvent_follows follows_match)
  ultimately show "follows s (EnqueueEvent T x s')"
    by (rule follows_trans)
next
  fix v s'
  assume "follows s s'"
  then show "follows s (s'\<lparr>invoked := v\<rparr>)"
    by (simp add: follows_def)
next
  fix v s'
  assume "follows s s'"
  then show "follows s (s'\<lparr>reads := v\<rparr>)"
    by (simp add: follows_def)
next
  fix i s'
  assume "follows s s'"
  then show "follows s (on_pool i EventPool_ClearEventQueue s')"
    by (simp add: follows_def)
next
  assume "pools_match s"
  then show "follows s (received Call_Dispatch s)"
    by (simp add: received_follows)
qed

lemma exec_follows: "pools_match s \<Longrightarrow> follows s (exec op s)"
  by (cases op)
     (simp_all add: TriggerEvent_follows EnqueueEvent_follows SubscribeToEvent_follows
       UnsubscribeFromEvent_follows DispatchQueuedEvents_follows ClearEventQueues_follows
       ClearEventQueues_sel_follows)

lemma run_follows: "pools_match s \<Longrightarrow> follows s (run ops s)"
  unfolding run_def by (intro follows_fold exec_follows)

lemma bus_new_match: "reg_ok r \<Longrightarrow> pools_match (bus_new r fe fs)"
  by (simp add: pools_match_def wf_def bus_new_def pool_exists_def pool_at_def touched_def
      split: option.splits)

section \<open>The flush of one pool and the events enqueued meanwhile\<close>

text \<open>
  C10: when \<^verbatim>\<open>EventPool::DispatchQueuedEvents()\<close> returns, the pool's pending buffer is
  empty, whatever the bound callables did: an event that a callable enqueued into the
  same pool during the flush is removed by the clear that ends the flush. The pool is
  still there, with the same bound callables.
\<close>
theorem flush_empties_buffer:
  "pool_at i s = Some p \<Longrightarrow>
   \<exists>p'. pool_at i (EventPool_DispatchQueuedEvents i s) = Some p' \<and> mEventQueue p' = [] \<and>
        bindings (mSignal p') = bindings (mSignal p)"
proof -
  assume p: "pool_at i s = Some p"
  then have "pool_at i (EventPool_DispatchQueuedEvents i s) \<noteq> None"
    by (intro code_flush_exists) simp
  then obtain p' where p': "pool_at i (EventPool_DispatchQueuedEvents i s) = Some p'"
    by blast
  have "queue_at i (EventPool_DispatchQueuedEvents i s) = []"
    by (rule code_flush_queue)
  with p' have q: "mEventQueue p' = []"
    by (simp add: queue_at_def)
  have "bindings_at i (EventPool_DispatchQueuedEvents i s) = bindings_at i s"
    by (rule code_flush_bindings)
  with p p' have "bindings (mSignal p') = bindings (mSignal p)"
    by (simp add: bindings_at_def)
  with p' q show ?thesis by blast
qed

text \<open>
  At a concrete pool: one callable that enqueues an event of the pool's own type on
  every call, two buffered events. The bus received two more enqueues during the flush,
  and the buffer is empty after it.
\<close>
theorem flush_empties_buffer_witness:
  "pool_at 0 (run [Subscribe 0 echo, Enqueue 0 1, Enqueue 0 2] (bus_new registry_init zeros nulls))
     = Some \<lparr>mSignal = \<lparr>bindings = [(0, echo)], next_slot = 1\<rparr>, mEventQueue = [1, 2]\<rparr> \<and>
   calls (EventPool_DispatchQueuedEvents 0
       (run [Subscribe 0 echo, Enqueue 0 1, Enqueue 0 2] (bus_new registry_init zeros nulls)))
     = [Call_Subscribe 0, Call_Enqueue 0, Call_Enqueue 0, Call_Enqueue 0, Call_Enqueue 0] \<and>
   (\<exists>p'. pool_at 0 (EventPool_DispatchQueuedEvents 0
       (run [Subscribe 0 echo, Enqueue 0 1, Enqueue 0 2] (bus_new registry_init zeros nulls))) = Some p' \<and>
     mEventQueue p' = [] \<and> bindings (mSignal p') = [(0, echo)])"
proof -
  have h: "pool_at 0 (run [Subscribe 0 echo, Enqueue 0 1, Enqueue 0 2] (bus_new registry_init zeros nulls))
     = Some \<lparr>mSignal = \<lparr>bindings = [(0, echo)], next_slot = 1\<rparr>, mEventQueue = [1, 2]\<rparr>"
    by (simp add: unfold_model)
  have c: "calls (EventPool_DispatchQueuedEvents 0
       (run [Subscribe 0 echo, Enqueue 0 1, Enqueue 0 2] (bus_new registry_init zeros nulls)))
     = [Call_Subscribe 0, Call_Enqueue 0, Call_Enqueue 0, Call_Enqueue 0, Call_Enqueue 0]"
    by (simp add: unfold_model)
  show ?thesis
    using flush_empties_buffer [OF h] h c by simp
qed

section \<open>The invariant of the pools\<close>

text \<open>
  C7, as the code has it: in every state that a program reaches from a new bus (the
  registry may have been used before), an event type has a pool if and only if the bus
  has received a trigger, an enqueue, a subscribe or a selective clear that names the
  type, from the program or from a callable; and no operation removes a pool.
\<close>
theorem pool_exists_iff_resolved:
  assumes "reg_ok r"
  shows "(pool_exists T (run ops (bus_new r fe fs)) \<longleftrightarrow> T \<in> touched pool_ops (run ops (bus_new r fe fs))) \<and>
         (pool_exists T (run ops (bus_new r fe fs)) \<longrightarrow> pool_exists T (exec op (run ops (bus_new r fe fs))))"
proof -
  let ?s = "run ops (bus_new r fe fs)"
  from assms have "pools_match (bus_new r fe fs)" by (rule bus_new_match)
  then have "follows (bus_new r fe fs) ?s" by (rule run_follows)
  then have m: "pools_match ?s" by (rule follows_match)
  then have "follows ?s (exec op ?s)" by (rule exec_follows)
  with m show ?thesis
    by (auto simp: follows_def pools_match_def touched_def)
qed

text \<open>
  A run in which type 1 is subscribed and triggered, its callable enqueues an event of
  type 0, and type 2 is named by a selective clear: the types 0, 1 and 2 have pools,
  type 3 has none, and the pools are still there after a clear and after a dispatch.
\<close>
theorem pool_exists_iff_resolved_witness:
  "let s = run [Subscribe 1 echo, Trigger 1 5, Clear_sel [2]] (bus_new registry_init zeros nulls)
   in reg_ok (registry_init :: nat registry) \<and>
      calls s = [Call_Subscribe 1, Call_Trigger 1, Call_Enqueue 0, Call_Clear_sel [2]] \<and>
      touched pool_ops s = {0, 1, 2} \<and>
      pool_exists 0 s \<and> pool_exists 1 s \<and> pool_exists 2 s \<and> \<not> pool_exists 3 s \<and>
      pool_exists 0 (exec Clear s) \<and> pool_exists 2 (exec Dispatch s)"
proof -
  define s :: "(nat, nat) state"
    where "s = run [Subscribe 1 echo, Trigger 1 5, Clear_sel [2]] (bus_new registry_init zeros nulls)"
  have r: "reg_ok (registry_init :: nat registry)"
    by (simp add: reg_ok_def registry_init_def)
  have c: "calls s = [Call_Subscribe 1, Call_Trigger 1, Call_Enqueue 0, Call_Clear_sel [2]]"
    by (simp add: s_def unfold_model)
  then have t: "touched pool_ops s = {0, 1, 2}"
    by (auto simp: touched_def)
  note th = pool_exists_iff_resolved [OF r, of _ "[Subscribe 1 echo, Trigger 1 5, Clear_sel [2]]" zeros nulls,
      folded s_def]
  from th [of 0] t have p0: "pool_exists 0 s" by simp
  from th [of 1] t have p1: "pool_exists 1 s" by simp
  from th [of 2] t have p2: "pool_exists 2 s" by simp
  from th [of 3] t have p3: "\<not> pool_exists 3 s" by simp
  from th [of 0 Clear] p0 have q0: "pool_exists 0 (exec Clear s)" by blast
  from th [of 2 Dispatch] p2 have q2: "pool_exists 2 (exec Dispatch s)" by blast
  show ?thesis
    unfolding Let_def s_def [symmetric]
    by (intro conjI) (fact r c t p0 p1 p2 p3 q0 q2)+
qed

text \<open>
  C7 as the spec states it fails: on a new bus, \<^verbatim>\<open>ClearEventQueues<T>()\<close> alone creates
  the pool of \<open>T\<close> (here type 0), and the bus has seen no trigger, enqueue or subscribe.
\<close>
theorem pool_created_by_selective_clear_counterexample:
  "let s = run [Clear_sel [0]] (bus_new registry_init zeros nulls) :: (nat, nat) state
   in calls s = [Call_Clear_sel [0]] \<and> touched three_ops s = {} \<and> pool_exists 0 s"
proof -
  have c: "calls (run [Clear_sel [0]] (bus_new registry_init zeros nulls) :: (nat, nat) state) = [Call_Clear_sel [0]]"
    by (simp add: unfold_model)
  then have "touched three_ops (run [Clear_sel [0]] (bus_new registry_init zeros nulls) :: (nat, nat) state) = {}"
    by (simp add: touched_def)
  moreover have "pool_exists 0 (run [Clear_sel [0]] (bus_new registry_init zeros nulls) :: (nat, nat) state)"
    by (simp add: unfold_model)
  ultimately show ?thesis
    using c by (simp add: Let_def)
qed

section \<open>Clear, then dispatch\<close>

lemma nothing_pending_silent: "\<forall>j. queue_at j s = [] \<Longrightarrow> silent s"
  by (simp add: silent_def)

lemma DispatchQueuedEvents_nothing_pending:
  assumes "\<forall>j. queue_at j s = []"
  shows "invoked (DispatchQueuedEvents s) = invoked s"
    and "queue_at j (DispatchQueuedEvents s) = []"
    and "bindings_at j (DispatchQueuedEvents s) = bindings_at j s"
    and "statics (DispatchQueuedEvents s) = statics s"
  using assms
  by (simp_all add: silent_dispatch nothing_pending_silent spec_dispatch_nothing_pending)

text \<open>
  C6: after any number of enqueues for \<open>T\<close> (the events are in the buffer),
  \<^verbatim>\<open>ClearEventQueues()\<close> calls no callable and leaves every buffer empty and every
  type's bound callables as they were; a \<^verbatim>\<open>DispatchQueuedEvents()\<close> that follows calls
  no callable either, and the buffers stay empty.
\<close>
theorem clear_discards_without_calling:
  assumes "wf s"
  shows "pending T (fold (EnqueueEvent T) as s) = pending T s @ as \<and>
         invoked (ClearEventQueues (fold (EnqueueEvent T) as s)) = invoked s \<and>
         pending U (ClearEventQueues (fold (EnqueueEvent T) as s)) = [] \<and>
         bound U (ClearEventQueues (fold (EnqueueEvent T) as s)) = bound U s \<and>
         invoked (DispatchQueuedEvents (ClearEventQueues (fold (EnqueueEvent T) as s))) = invoked s \<and>
         pending U (DispatchQueuedEvents (ClearEventQueues (fold (EnqueueEvent T) as s))) = []"
proof -
  let ?s1 = "fold (EnqueueEvent T) as s"
  let ?s2 = "ClearEventQueues ?s1"
  have empty: "\<forall>j. queue_at j ?s2 = []"
    by (simp add: ClearEventQueues_obs)
  have "bound U ?s2 = bound U ?s1"
    by (rule bound_from_bindings) (simp_all add: ClearEventQueues_obs)
  then have b: "bound U ?s2 = bound U s"
    using assms by (simp add: bound_enqueue_all)
  have i2: "invoked ?s2 = invoked s"
    by (simp add: ClearEventQueues_obs invoked_enqueue_all)
  have i3: "invoked (DispatchQueuedEvents ?s2) = invoked s"
    using empty by (simp add: DispatchQueuedEvents_nothing_pending i2)
  have "\<forall>j. queue_at j (DispatchQueuedEvents ?s2) = []"
    using empty by (simp add: DispatchQueuedEvents_nothing_pending)
  then have p3: "pending U (DispatchQueuedEvents ?s2) = []"
    by (rule pending_from_queues)
  from assms empty b i2 i3 p3 show ?thesis
    by (simp add: pending_enqueue_all pending_from_queues)
qed

text \<open>
  Three events enqueued for type 0, which has a callable bound, and one pending for
  type 1: after the clear and the dispatch nothing was called.
\<close>
theorem clear_discards_without_calling_witness:
  "let s0 = run [Subscribe 0 echo, Subscribe 1 quiet, Enqueue 1 4] (bus_new registry_init zeros nulls);
       s1 = fold (EnqueueEvent 0) [1, 2, 3] s0;
       s2 = ClearEventQueues s1;
       s3 = DispatchQueuedEvents s2
   in wf s0 \<and>
      pending 0 s1 = [1, 2, 3] \<and> pending 1 s1 = [4] \<and> bound 0 s1 = [(0, echo)] \<and>
      invoked s2 = [] \<and> pending 0 s2 = [] \<and> pending 1 s2 = [] \<and> bound 0 s2 = [(0, echo)] \<and>
      invoked s3 = [] \<and> pending 0 s3 = []"
proof -
  define s0 :: "(nat, nat) state"
    where "s0 = run [Subscribe 0 echo, Subscribe 1 quiet, Enqueue 1 4] (bus_new registry_init zeros nulls)"
  have w: "wf s0"
    by (simp add: s0_def unfold_model wf_def reg_ok_def)
  have o: "pending 0 s0 = []" "pending 1 (fold (EnqueueEvent 0) [1, 2, 3] s0) = [4]"
    "bound 0 s0 = [(0, echo)]" "bound 0 (fold (EnqueueEvent 0) [1, 2, 3] s0) = [(0, echo)]"
    "invoked s0 = []"
    by (simp_all add: s0_def unfold_model)
  from clear_discards_without_calling [OF w, of 0 "[1, 2, 3]" 0]
    clear_discards_without_calling [OF w, of 0 "[1, 2, 3]" 1] w o
  show ?thesis
    unfolding Let_def s0_def [symmetric] by simp
qed

section \<open>Events enqueued during the flush of their own pool\<close>

text \<open>
  C1: the callable bound to type 0 enqueues an event of type 0 on every call, and the
  events 1 and 2 are pending. The flush keeps no snapshot of the buffer: the loop walks
  \<^verbatim>\<open>mEventQueue\<close> itself. The first call, with 1, appends 11 to the vector, which holds
  two events and no room for a third, so it moves to new storage; the second call is
  made with what the loop reads at its old place in the released storage, \<open>fe 0\<close>,
  whatever that is, and not with a snapshot's event 2. The clear at the end removes 11
  and what the second call enqueued, so the next dispatch calls nothing: the events
  enqueued during the flush are never delivered.
\<close>
theorem flush_walks_released_buffer:
  "let s0 = run [Subscribe 0 echo, Enqueue 0 1, Enqueue 0 2] (bus_new registry_init fe fs);
       s1 = DispatchQueuedEvents s0;
       s2 = DispatchQueuedEvents s1
   in pending 0 s0 = [1, 2] \<and>
      invoked s1 = [Invoked 0 0 1, Invoked 0 0 (fe 0)] \<and>
      calls s1 = [Call_Subscribe 0, Call_Enqueue 0, Call_Enqueue 0, Call_Dispatch,
                  Call_Enqueue 0, Call_Enqueue 0] \<and>
      pending 0 s1 = [] \<and>
      invoked s2 = invoked s1"
proof -
  define s0 :: "(nat, nat) state"
    where "s0 = run [Subscribe 0 echo, Enqueue 0 1, Enqueue 0 2] (bus_new registry_init fe fs)"
  have S: "s0 = \<lparr>statics = \<lparr>id_static = 1, eventID = [0 \<mapsto> 0]\<rparr>,
      mEventPools = [Some \<lparr>mSignal = \<lparr>bindings = [(0, echo)], next_slot = 1\<rparr>, mEventQueue = [1, 2]\<rparr>],
      invoked = [], calls = [Call_Subscribe 0, Call_Enqueue 0, Call_Enqueue 0],
      freed_event = fe, freed_slot = fs, reads = 0\<rparr>"
    by (simp add: s0_def unfold_model)
  define s1 where "s1 = DispatchQueuedEvents s0"
  have T: "s1 = \<lparr>statics = \<lparr>id_static = 1, eventID = [0 \<mapsto> 0]\<rparr>,
      mEventPools = [Some \<lparr>mSignal = \<lparr>bindings = [(0, echo)], next_slot = 1\<rparr>, mEventQueue = []\<rparr>],
      invoked = [Invoked 0 0 1, Invoked 0 0 (fe 0)],
      calls = [Call_Subscribe 0, Call_Enqueue 0, Call_Enqueue 0, Call_Dispatch,
               Call_Enqueue 0, Call_Enqueue 0],
      freed_event = fe, freed_slot = fs, reads = 1\<rparr>"
    unfolding s1_def S by (simp add: unfold_model)
  have "pending 0 s0 = [1, 2]"
    unfolding S by (simp add: pending_def queue_at_def pool_at_def)
  moreover have "invoked s1 = [Invoked 0 0 1, Invoked 0 0 (fe 0)]"
    "calls s1 = [Call_Subscribe 0, Call_Enqueue 0, Call_Enqueue 0, Call_Dispatch,
                 Call_Enqueue 0, Call_Enqueue 0]"
    "pending 0 s1 = []"
    unfolding T by (simp_all add: pending_def queue_at_def pool_at_def)
  moreover have "invoked (DispatchQueuedEvents s1) = invoked s1"
    unfolding T by (simp add: unfold_model)
  ultimately show ?thesis
    unfolding Let_def s0_def [symmetric] s1_def [symmetric] by simp
qed

section \<open>Enqueue, then dispatch\<close>




section \<open>The dispatch of all pools\<close>














text \<open>
  Outside these conditions the loop does not reach every pool. The callable of type 0
  enqueues an event of type 2, which has no id yet: \<^verbatim>\<open>GetEventHandler\<close> resizes
  \<^verbatim>\<open>mEventPools\<close> while \<^verbatim>\<open>DispatchQueuedEvents()\<close> iterates over it. The loop goes on in
  the released storage, and the pool of type 1 is flushed only if the slot it reads
  there (\<open>fs 0\<close>) is not null.
\<close>
lemma dispatch_all_after_resize:
  "let s0 = run [Subscribe 0 spawn, Subscribe 1 quiet, Enqueue 0 1, Enqueue 1 6]
              (bus_new registry_init fe fs);
       s1 = DispatchQueuedEvents s0
   in length (mEventPools s0) = 2 \<and> length (mEventPools s1) = 3 \<and>
      pending 1 s0 = [6] \<and>
      invoked s1 = Invoked 0 0 1 # (if fs 0 then [Invoked 1 0 6] else []) \<and>
      pending 1 s1 = (if fs 0 then [] else [6])"
proof -
  define s0 :: "(nat, nat) state"
    where "s0 = run [Subscribe 0 spawn, Subscribe 1 quiet, Enqueue 0 1, Enqueue 1 6]
              (bus_new registry_init fe fs)"
  have S: "s0 = \<lparr>statics = \<lparr>id_static = 2, eventID = [0 \<mapsto> 0, 1 \<mapsto> 1]\<rparr>,
      mEventPools = [Some \<lparr>mSignal = \<lparr>bindings = [(0, spawn)], next_slot = 1\<rparr>, mEventQueue = [1]\<rparr>,
                     Some \<lparr>mSignal = \<lparr>bindings = [(0, quiet)], next_slot = 1\<rparr>, mEventQueue = [6]\<rparr>],
      invoked = [],
      calls = [Call_Subscribe 0, Call_Subscribe 1, Call_Enqueue 0, Call_Enqueue 1],
      freed_event = fe, freed_slot = fs, reads = 0\<rparr>"
    by (simp add: s0_def unfold_model)
  have "length (mEventPools s0) = 2" "pending 1 s0 = [6]"
    unfolding S by (simp_all add: pending_def queue_at_def pool_at_def)
  moreover have "length (mEventPools (DispatchQueuedEvents s0)) = 3"
    "invoked (DispatchQueuedEvents s0) = Invoked 0 0 1 # (if fs 0 then [Invoked 1 0 6] else [])"
    "pending 1 (DispatchQueuedEvents s0) = (if fs 0 then [] else [6])"
    unfolding S by (simp_all add: unfold_model spawn_def)
  ultimately show ?thesis
    unfolding Let_def s0_def [symmetric] by simp
qed

section \<open>Events reach the callables of their type only\<close>

text \<open>
  C9: let \<open>T\<close> and \<open>U\<close> be distinct event types, \<open>U\<close> with a pool. A trigger of \<open>T\<close> and
  a flush of the pool of \<open>T\<close> call nothing through the dispatch point of \<open>U\<close>, whatever
  the callables enqueue. An enqueue for \<open>T\<close> calls nothing and leaves the buffer and the
  bound callables of \<open>U\<close> as they are. In the dispatch that follows it the callables of
  \<open>U\<close> are called with the pending events of \<open>U\<close> and with nothing else, provided that
  no callable enqueues events of type \<open>U\<close> itself, of the type it is bound to, or of a
  type that has no slot in \<^verbatim>\<open>mEventPools\<close> yet. A callable subscribed to \<open>U\<close> is not
  bound to \<open>T\<close>.
\<close>
theorem events_reach_only_their_type:
  assumes w: "wf s" and ne: "T \<noteq> U" and u: "eventID (statics s) U = Some j"
    and p: "pool_at j s \<noteq> None"
  shows "(\<forall>x\<in>set (invoked_since s (TriggerEvent T a s)). pool_of x \<noteq> j) \<and>
         (\<forall>i. eventID (statics s) T = Some i \<longrightarrow>
            (\<forall>x\<in>set (invoked_since s (EventPool_DispatchQueuedEvents i s)). pool_of x \<noteq> j)) \<and>
         invoked (EnqueueEvent T a s) = invoked s \<and>
         pending U (EnqueueEvent T a s) = pending U s \<and>
         bound U (EnqueueEvent T a s) = bound U s \<and>
         (others_enqueue_none U s \<and> safe_pass s \<longrightarrow>
            filter (\<lambda>x. pool_of x = j)
              (invoked_since (EnqueueEvent T a s) (DispatchQueuedEvents (EnqueueEvent T a s)))
              = deliveries j (bound U s) (pending U s)) \<and>
         bound T (snd (SubscribeToEvent U f s)) = bound T s"
proof -
  have ij: "id_of T s \<noteq> j"
    using w ne u reg_ok_distinct_ids [of "statics s" T U j] by (simp add: wf_def id_of_def)
  have "invoked_since s (TriggerEvent T a s)
          = map (\<lambda>b. Invoked (id_of T s) (fst b) a) (bindings_at (id_of T s) s)"
    by (rule invoked_sinceI) (rule TriggerEvent_invoked)
  then have c1: "\<forall>x\<in>set (invoked_since s (TriggerEvent T a s)). pool_of x \<noteq> j"
    using ij by auto
  have c2: "\<forall>x\<in>set (invoked_since s (EventPool_DispatchQueuedEvents i s)). pool_of x \<noteq> j"
    if "eventID (statics s) T = Some i" for i
  proof -
    from that have "id_of T s = i" by (rule id_of_Some)
    with ij have "i \<noteq> j" by simp
    moreover obtain X where "invoked (EventPool_DispatchQueuedEvents i s) = invoked s @ X"
      and "\<forall>x\<in>set X. pool_of x = i"
      using code_flush_through [of i s] unfolding calls_through_def by blast
    ultimately show ?thesis by (auto simp: invoked_since_def)
  qed
  let ?s1 = "EnqueueEvent T a s"
  have c3: "invoked ?s1 = invoked s" by (rule EnqueueEvent_fields)
  have c4: "pending U ?s1 = pending U s" using w ne by (rule pending_EnqueueEvent_other)
  have c5: "bound U ?s1 = bound U s" using w by (rule bound_EnqueueEvent)
  have c6: "filter (\<lambda>x. pool_of x = j) (invoked_since ?s1 (DispatchQueuedEvents ?s1))
              = deliveries j (bound U s) (pending U s)"
    if h: "others_enqueue_none U s" and f: "safe_pass s"
  proof -
    have w1: "wf ?s1" using w by (rule wf_EnqueueEvent)
    have u1: "eventID (statics ?s1) U = Some j" using u by (rule eventID_EnqueueEvent)
    have p1: "pool_at j ?s1 \<noteq> None" using p by (rule exists_EnqueueEvent)
    have uj: "id_of U s = j" using u by (rule id_of_Some)
    have h1: "\<forall>j'. j' \<noteq> j \<longrightarrow> (\<forall>b\<in>set (bindings_at j' ?s1). \<forall>e. enqueued_for U (snd b) e = [])"
      using h by (simp add: others_enqueue_none_def uj bindings_at_EnqueueEvent)
    from f have "safe_pass ?s1" by (rule safe_enqueue)
    then have D: "DispatchQueuedEvents ?s1 = spec_dispatch ?s1" by (rule safe_dispatch)
    have "bindings_at j ?s1 = bound U s"
      using u by (simp add: bindings_at_EnqueueEvent bound_def)
    moreover have "queue_at j ?s1 = pending U s"
      using c4 u1 by (simp add: pending_def)
    ultimately show ?thesis
      unfolding D using dispatch_all_one_type(1) [OF w1 u1 p1 h1] by simp
  qed
  have c7: "bound T (snd (SubscribeToEvent U f s)) = bound T s"
    using w ne by (rule bound_SubscribeToEvent_other)
  from c1 c2 c3 c4 c5 c6 c7 show ?thesis by blast
qed

text \<open>
  Types 0 and 1 with one callable and one pending event each; the callable of type 0
  enqueues an event of type 1 on every call. The trigger of type 0 and the flush of its
  pool call the callable of type 0 only. After an enqueue of 9 for type 0 the buffer
  of type 1 is as it was. With a callable of type 0 that enqueues nothing, the dispatch
  calls the callable of type 1 with its own event 4 only.
\<close>
theorem events_reach_only_their_type_witness:
  "let s0 = run [Subscribe 0 forward, Subscribe 1 quiet, Enqueue 0 3, Enqueue 1 4]
              (bus_new registry_init zeros nulls);
       s1 = EnqueueEvent 0 9 s0;
       sq = run [Subscribe 0 quiet, Subscribe 1 quiet, Enqueue 0 3, Enqueue 1 4]
              (bus_new registry_init zeros nulls);
       sr = EnqueueEvent 0 9 sq
   in wf s0 \<and> eventID (statics s0) 1 = Some 1 \<and> pool_at 1 s0 \<noteq> None \<and>
      eventID (statics s0) 0 = Some 0 \<and>
      invoked_since s0 (TriggerEvent 0 9 s0) = [Invoked 0 0 9] \<and>
      invoked_since s0 (EventPool_DispatchQueuedEvents 0 s0) = [Invoked 0 0 3] \<and>
      pending 1 s0 = [4] \<and> pending 1 s1 = [4] \<and> bound 1 s1 = [(0, quiet)] \<and>
      bound 0 (snd (SubscribeToEvent 1 echo s0)) = [(0, forward)] \<and>
      wf sq \<and> eventID (statics sq) 1 = Some 1 \<and> pool_at 1 sq \<noteq> None \<and>
      others_enqueue_none 1 sq \<and> safe_pass sq \<and>
      filter (\<lambda>x. pool_of x = 1) (invoked_since sr (DispatchQueuedEvents sr)) = [Invoked 1 0 4] \<and>
      invoked_since sr (DispatchQueuedEvents sr) = [Invoked 0 0 3, Invoked 0 0 9, Invoked 1 0 4]"
proof -
  define s0 :: "(nat, nat) state"
    where "s0 = run [Subscribe 0 forward, Subscribe 1 quiet, Enqueue 0 3, Enqueue 1 4]
              (bus_new registry_init zeros nulls)"
  define sq :: "(nat, nat) state"
    where "sq = run [Subscribe 0 quiet, Subscribe 1 quiet, Enqueue 0 3, Enqueue 1 4]
              (bus_new registry_init zeros nulls)"
  have S: "s0 = \<lparr>statics = \<lparr>id_static = 2, eventID = [0 \<mapsto> 0, 1 \<mapsto> 1]\<rparr>,
      mEventPools = [Some \<lparr>mSignal = \<lparr>bindings = [(0, forward)], next_slot = 1\<rparr>, mEventQueue = [3]\<rparr>,
                     Some \<lparr>mSignal = \<lparr>bindings = [(0, quiet)], next_slot = 1\<rparr>, mEventQueue = [4]\<rparr>],
      invoked = [],
      calls = [Call_Subscribe 0, Call_Subscribe 1, Call_Enqueue 0, Call_Enqueue 1],
      freed_event = zeros, freed_slot = nulls, reads = 0\<rparr>"
    by (simp add: s0_def unfold_model)
  have Q: "sq = \<lparr>statics = \<lparr>id_static = 2, eventID = [0 \<mapsto> 0, 1 \<mapsto> 1]\<rparr>,
      mEventPools = [Some \<lparr>mSignal = \<lparr>bindings = [(0, quiet)], next_slot = 1\<rparr>, mEventQueue = [3]\<rparr>,
                     Some \<lparr>mSignal = \<lparr>bindings = [(0, quiet)], next_slot = 1\<rparr>, mEventQueue = [4]\<rparr>],
      invoked = [],
      calls = [Call_Subscribe 0, Call_Subscribe 1, Call_Enqueue 0, Call_Enqueue 1],
      freed_event = zeros, freed_slot = nulls, reads = 0\<rparr>"
    by (simp add: sq_def unfold_model)
  have ne: "(0::nat) \<noteq> 1" by simp
  have w: "wf s0"
    unfolding S by (simp add: wf_def reg_ok_def)
  have u: "eventID (statics s0) 1 = Some 1" and t: "eventID (statics s0) 0 = Some 0"
    unfolding S by simp_all
  have p: "pool_at 1 s0 \<noteq> None"
    unfolding S by (simp add: pool_at_def)
  have o: "bound 1 s0 = [(0, quiet)]" "pending 1 s0 = [4]" "bound 0 s0 = [(0, forward)]"
    unfolding S by (simp_all add: bound_def pending_def bindings_at_def queue_at_def pool_at_def)
  have a: "invoked_since s0 (TriggerEvent 0 9 s0) = [Invoked 0 0 9]"
    "invoked_since s0 (EventPool_DispatchQueuedEvents 0 s0) = [Invoked 0 0 3]"
    unfolding S by (simp_all add: unfold_model forward_def)
  note th = events_reach_only_their_type [OF w ne u p, of 9 echo]
  from th have "pending 1 (EnqueueEvent 0 9 s0) = pending 1 s0" by blast
  with o have c4: "pending 1 (EnqueueEvent 0 9 s0) = [4]" by simp
  from th have "bound 1 (EnqueueEvent 0 9 s0) = bound 1 s0" by blast
  with o have c5: "bound 1 (EnqueueEvent 0 9 s0) = [(0, quiet)]" by simp
  from th have "bound 0 (snd (SubscribeToEvent 1 echo s0)) = bound 0 s0" by blast
  with o have c7: "bound 0 (snd (SubscribeToEvent 1 echo s0)) = [(0, forward)]" by simp
  have wq: "wf sq"
    unfolding Q by (simp add: wf_def reg_ok_def)
  have uq: "eventID (statics sq) 1 = Some 1"
    unfolding Q by simp
  have pq: "pool_at 1 sq \<noteq> None"
    unfolding Q by (simp add: pool_at_def)
  have oq: "bound 1 sq = [(0, quiet)]" "pending 1 sq = [4]"
    unfolding Q by (simp_all add: bound_def pending_def bindings_at_def queue_at_def pool_at_def)
  have h: "others_enqueue_none 1 sq"
    unfolding others_enqueue_none_def Q
    by (auto simp: id_of_def GetEventId_def bindings_at_def pool_at_def enqueued_for_def quiet_def
        nth_Cons' split: if_splits)
  have f: "safe_pass sq"
    unfolding safe_pass_def Q
    by (auto simp: bindings_at_def pool_at_def quiet_def nth_Cons' split: if_splits)
  have b: "invoked_since (EnqueueEvent 0 9 sq) (DispatchQueuedEvents (EnqueueEvent 0 9 sq))
             = [Invoked 0 0 3, Invoked 0 0 9, Invoked 1 0 4]"
    unfolding Q by (simp add: unfold_model)
  note thq = events_reach_only_their_type [OF wq ne uq pq, of 9 echo]
  from thq h f have "filter (\<lambda>x. pool_of x = 1)
      (invoked_since (EnqueueEvent 0 9 sq) (DispatchQueuedEvents (EnqueueEvent 0 9 sq)))
      = deliveries 1 (bound 1 sq) (pending 1 sq)" by blast
  then have c6: "filter (\<lambda>x. pool_of x = 1)
      (invoked_since (EnqueueEvent 0 9 sq) (DispatchQueuedEvents (EnqueueEvent 0 9 sq)))
      = [Invoked 1 0 4]"
    unfolding oq by (simp add: deliveries_def)
  show ?thesis
    unfolding Let_def s0_def [symmetric] sq_def [symmetric]
    by (intro conjI) (fact w u t p o a c4 c5 c7 wq uq pq h f c6 b)+
qed

section \<open>The selective dispatch\<close>

text \<open>
  C2: the claim is what the function is meant to do, and the code does not do it. For
  every nonempty list of event types the selective \<^verbatim>\<open>spec_dispatch<Event...>\<close>
  fails at the first type: the member \<^verbatim>\<open>DispatchEvents\<close> that it calls on the pool does
  not exist, so nothing is flushed.
\<close>

theorem selective_dispatch_has_no_member:
  "DispatchQueuedEvents_sel (T # Ts) s = Inl (No_member ''DispatchEvents'')"
  by (simp add: EventPool_call_def split_beta)

end
